theory Spec2Isabelle
  imports
    Main
    "HOL-Library.Word"
    "HOL-Library.Multiset"
    "HOL-Library.Char_ord"
    "HOL-Library.List_Lexorder"
begin

section \<open>The concurrent word-frequency counter of homework-1\<close>

text \<open>
  The development embeds \<^verbatim>\<open>src/homework-1/example/counter.hpp\<close> (the second
  document of that file: the word counter program). Every source function has a
  definition of the same name. The conventions:
  \<^item> \<^verbatim>\<open>int\<close> is a \<open>32 word\<close> read with \<open>sint\<close>; \<^verbatim>\<open>size_t\<close> and
    \<^verbatim>\<open>uint64_t\<close> are \<open>64 word\<close>, so \<^verbatim>\<open>++\<close> and \<^verbatim>\<open>+=\<close> on a count wrap around;
  \<^item> \<^verbatim>\<open>std::string\<close> and \<^verbatim>\<open>fs::path\<close> are \<open>string\<close>, a list of bytes, compared byte
    by byte as \<^verbatim>\<open>std::string::operator<\<close> does;
  \<^item> \<^verbatim>\<open>std::unordered_map<std::string, uint64_t>\<close> is an association list with
    distinct keys. The iteration order of an unordered map is unspecified; the model
    iterates in the order of first insertion, and the theorems on merged totals and on
    the ranked output are stated for every order of the entries;
  \<^item> what the program reads from its environment (the directory tree, the files, the
    value of \<^verbatim>\<open>std::hash\<close>, which worker pops which path) is a parameter, the
    record \<open>env\<close>.
\<close>

subsection \<open>Configuration, diagnostics and the environment\<close>

record Config =
  threads :: "32 word"
  top_m :: "32 word"
  min_len :: "32 word"
  dir_path :: string

text \<open>
  The lines the program writes to \<^verbatim>\<open>std::cerr\<close>, one constructor for each message
  in the source, carrying what the message prints. \<open>Usage\<close> carries \<^verbatim>\<open>argv[0]\<close>
  (\<open>None\<close> when the argument vector is empty and \<^verbatim>\<open>argv[0]\<close> is the null pointer).
\<close>

datatype diag =
    Unknown_argument string
  | Parameters_must_be_ge_1
  | Directory_not_found string
  | Usage "string option"
  | Failed_to_open_file string
  | Filesystem_error

text \<open>
  The exceptions that leave \<^verbatim>\<open>parse_args\<close>: the two of \<^verbatim>\<open>std::stoi\<close>, and the
  \<^verbatim>\<open>fs::filesystem_error\<close> of \<^verbatim>\<open>fs::exists\<close> and \<^verbatim>\<open>fs::is_directory\<close>. Nothing in
  the program catches them there: one thrown inside \<^verbatim>\<open>parse_args\<close> ends the process
  through \<^verbatim>\<open>std::terminate\<close>.
\<close>

datatype exn = Invalid_argument | Out_of_range | Filesystem_exception

text \<open>
  What the program reads from outside:
  \<^item> \<open>is_directory p\<close>: the value of \<^verbatim>\<open>fs::exists(p) && fs::is_directory(p)\<close>, or
    \<open>None\<close> when one of the two calls throws;
  \<^item> \<open>regular_files p\<close>: the paths of the regular files that
    \<^verbatim>\<open>fs::recursive_directory_iterator(p)\<close> yields, in its order, and whether the
    traversal ended with a \<^verbatim>\<open>fs::filesystem_error\<close>;
  \<^item> \<open>read_lines p\<close>: \<open>None\<close> when the \<^verbatim>\<open>std::ifstream\<close> does not open, otherwise
    the lines that \<^verbatim>\<open>std::getline\<close> returns one after another;
  \<^item> \<open>hash\<close>: \<^verbatim>\<open>std::hash<std::string>\<close>, a \<^verbatim>\<open>size_t\<close>;
  \<^item> \<open>pop_owner k\<close>: the scheduling of the run, namely which worker's \<^verbatim>\<open>pop\<close>
    returns the \<open>k\<close>-th path of the queue (taken modulo the number of workers).
\<close>

record env =
  is_directory :: "string \<Rightarrow> bool option"
  regular_files :: "string \<Rightarrow> string list \<times> bool"
  read_lines :: "string \<Rightarrow> string list option"
  hash :: "string \<Rightarrow> 64 word"
  pop_owner :: "nat \<Rightarrow> nat"

subsection \<open>Characters\<close>

text \<open>
  \<^verbatim>\<open>std::isalnum\<close>, \<^verbatim>\<open>std::tolower\<close> and \<^verbatim>\<open>std::isspace\<close> on an
  \<^verbatim>\<open>unsigned char\<close>, in the "C" locale (the program never calls \<^verbatim>\<open>setlocale\<close>):
  the digits and the 52 ASCII letters are alphanumeric, no byte above 127 is.
\<close>

definition isdigit :: "char \<Rightarrow> bool" where
  "isdigit c = (48 \<le> (of_char c :: nat) \<and> (of_char c :: nat) \<le> 57)"

definition isupper :: "char \<Rightarrow> bool" where
  "isupper c = (65 \<le> (of_char c :: nat) \<and> (of_char c :: nat) \<le> 90)"

definition islower :: "char \<Rightarrow> bool" where
  "islower c = (97 \<le> (of_char c :: nat) \<and> (of_char c :: nat) \<le> 122)"

definition isalnum :: "char \<Rightarrow> bool" where
  "isalnum c = (isdigit c \<or> isupper c \<or> islower c)"

definition isspace :: "char \<Rightarrow> bool" where
  "isspace c = ((of_char c :: nat) = 32 \<or> (9 \<le> (of_char c :: nat) \<and> (of_char c :: nat) \<le> 13))"

definition tolower :: "char \<Rightarrow> char" where
  "tolower c = (if isupper c then char_of ((of_char c :: nat) + 32) else c)"

definition is_word_char :: "char \<Rightarrow> bool" where
  "is_word_char c = (isalnum c \<or> c = CHR ''_'')"

subsection \<open>Argument parsing\<close>

text \<open>
  \<^verbatim>\<open>std::stoi(str)\<close> converts as \<^verbatim>\<open>strtol\<close> does in base 10: leading white space
  is skipped, one sign is optional, the longest run of digits is the number and what
  follows it is ignored. No digit: \<^verbatim>\<open>std::invalid_argument\<close>; a value that is not an
  \<^verbatim>\<open>int\<close>: \<^verbatim>\<open>std::out_of_range\<close>.
\<close>

definition decimal :: "string \<Rightarrow> int" where
  "decimal ds = foldl (\<lambda>acc c. acc * 10 + (int (of_char c) - 48)) 0 ds"

definition stoi :: "string \<Rightarrow> exn + 32 word" where
  "stoi str =
     (let s1 = dropWhile isspace str;
          negative = (case s1 of [] \<Rightarrow> False | c # _ \<Rightarrow> c = CHR ''-'');
          s2 = (case s1 of [] \<Rightarrow> [] | c # r \<Rightarrow> if c = CHR ''-'' \<or> c = CHR ''+'' then r else s1);
          ds = takeWhile isdigit s2;
          v = (if negative then - decimal ds else decimal ds)
      in if ds = [] then Inl Invalid_argument
         else if v < - (2 ^ 31) \<or> 2 ^ 31 - 1 < v then Inl Out_of_range
         else Inr (word_of_int v))"

text \<open>
  The \<^verbatim>\<open>for\<close> loop of \<^verbatim>\<open>parse_args\<close> over \<^verbatim>\<open>argv[1] .. argv[argc - 2]\<close>, given as
  the list of these arguments. An option consumes the next argument as its value
  (\<^verbatim>\<open>argv[++i]\<close>) only when that one is not the last of the vector
  (\<^verbatim>\<open>i + 1 < argc - 1\<close>); otherwise the \<^verbatim>\<open>else\<close> branch reports it as unknown.
  The result is the exception thrown, or the configuration (\<open>None\<close> for
  \<^verbatim>\<open>return false\<close>) and the diagnostics written.
\<close>

fun parse_options :: "string list \<Rightarrow> Config \<Rightarrow> exn + (Config option \<times> diag list)" where
  "parse_options [] config = Inr (Some config, [])"
| "parse_options [arg] config = Inr (None, [Unknown_argument arg])"
| "parse_options (arg # val # rest) config =
     (if arg = ''--threads'' then
        (case stoi val of Inl e \<Rightarrow> Inl e
         | Inr n \<Rightarrow> parse_options rest (config\<lparr>threads := n\<rparr>))
      else if arg = ''--top'' then
        (case stoi val of Inl e \<Rightarrow> Inl e
         | Inr n \<Rightarrow> parse_options rest (config\<lparr>top_m := n\<rparr>))
      else if arg = ''--minlen'' then
        (case stoi val of Inl e \<Rightarrow> Inl e
         | Inr n \<Rightarrow> parse_options rest (config\<lparr>min_len := n\<rparr>))
      else Inr (None, [Unknown_argument arg]))"

definition parse_args :: "env \<Rightarrow> string list \<Rightarrow> exn + (Config option \<times> diag list)" where
  "parse_args e argv =
     (if length argv < 2 then Inr (None, [])
      else
        case parse_options (butlast (tl argv))
               \<lparr>threads = 1, top_m = 10, min_len = 1, dir_path = last argv\<rparr> of
          Inl x \<Rightarrow> Inl x
        | Inr (None, err) \<Rightarrow> Inr (None, err)
        | Inr (Some config, err) \<Rightarrow>
            if threads config <s 1 \<or> top_m config <s 1 \<or> min_len config <s 1
            then Inr (None, err @ [Parameters_must_be_ge_1])
            else
              case is_directory e (dir_path config) of
                None \<Rightarrow> Inl Filesystem_exception
              | Some False \<Rightarrow> Inr (None, err @ [Directory_not_found (dir_path config)])
              | Some True \<Rightarrow> Inr (Some config, err))"

subsection \<open>The work queue\<close>

text \<open>
  The state that the mutex of \<^verbatim>\<open>ThreadSafeQueue\<close> protects. Every member function holds
  the mutex for its whole body, so each is one atomic step on this state. \<^verbatim>\<open>pop\<close>
  returns nothing (\<open>None\<close>) in a state where \<^verbatim>\<open>cv.wait\<close> keeps the caller blocked:
  the queue empty and \<^verbatim>\<open>producer_done\<close> not set. Otherwise it returns its
  \<^verbatim>\<open>bool\<close>, the value of the reference parameter \<^verbatim>\<open>file_path\<close> and the new state.
\<close>

record ThreadSafeQueue =
  q :: "string list"
  producer_done :: bool

definition push :: "string \<Rightarrow> ThreadSafeQueue \<Rightarrow> ThreadSafeQueue" where
  "push file_path s = s\<lparr>q := q s @ [file_path]\<rparr>"

definition pop :: "ThreadSafeQueue \<Rightarrow> string \<Rightarrow> (bool \<times> string \<times> ThreadSafeQueue) option" where
  "pop s file_path =
     (case q s of
        [] \<Rightarrow> if producer_done s then Some (False, file_path, s) else None
      | front # rest \<Rightarrow> Some (True, front, s\<lparr>q := rest\<rparr>))"

definition set_done :: "ThreadSafeQueue \<Rightarrow> ThreadSafeQueue" where
  "set_done s = s\<lparr>producer_done := True\<rparr>"

text \<open>
  A history of the queue: the operations of all threads in the order in which they hold
  the mutex. \<open>queue_run\<close> performs them and collects what each \<^verbatim>\<open>pop\<close> returned
  (\<open>Some\<close> path, or \<open>None\<close> for the end of input); it is \<open>None\<close> when a \<^verbatim>\<open>pop\<close> of
  the history finds the queue in a state where it blocks. \<open>pushed\<close> lists the paths
  pushed, \<open>delivered\<close> the paths popped, both in order.
\<close>

datatype queue_op = Push string | Pop | Set_done

fun queue_run ::
  "queue_op list \<Rightarrow> ThreadSafeQueue \<Rightarrow> string option list
     \<Rightarrow> (ThreadSafeQueue \<times> string option list) option" where
  "queue_run [] s res = Some (s, res)"
| "queue_run (Push p # ops) s res = queue_run ops (push p s) res"
| "queue_run (Set_done # ops) s res = queue_run ops (set_done s) res"
| "queue_run (Pop # ops) s res =
     (case pop s [] of
        None \<Rightarrow> None
      | Some (True, p, s') \<Rightarrow> queue_run ops s' (res @ [Some p])
      | Some (False, _, s') \<Rightarrow> queue_run ops s' (res @ [None]))"

fun pushed :: "queue_op list \<Rightarrow> string list" where
  "pushed [] = []"
| "pushed (Push p # ops) = p # pushed ops"
| "pushed (Pop # ops) = pushed ops"
| "pushed (Set_done # ops) = pushed ops"

fun delivered :: "string option list \<Rightarrow> string list" where
  "delivered [] = []"
| "delivered (Some p # res) = p # delivered res"
| "delivered (None # res) = delivered res"

subsection \<open>Word counts\<close>

type_synonym counts = "(string \<times> 64 word) list"

text \<open>
  \<^verbatim>\<open>m[w] += c\<close> on an unordered map: \<^verbatim>\<open>operator[]\<close> inserts a
  value-initialised (zero) count when the key is absent, then the count is added.
  \<^verbatim>\<open>m[w]++\<close> is \<open>add_count w 1 m\<close>.
\<close>

fun add_count :: "string \<Rightarrow> 64 word \<Rightarrow> counts \<Rightarrow> counts" where
  "add_count w c [] = [(w, 0 + c)]"
| "add_count w c ((k, v) # m) =
     (if k = w then (k, v + c) # m else (k, v) # add_count w c m)"

text \<open>The count a map holds for a word, \<open>0\<close> for a word it has no entry for.\<close>

definition count_of :: "counts \<Rightarrow> string \<Rightarrow> 64 word" where
  "count_of m w = (case map_of m w of None \<Rightarrow> 0 | Some c \<Rightarrow> c)"

subsection \<open>The tokenizer\<close>

text \<open>\<^verbatim>\<open>static_cast<size_t>\<close> of an \<^verbatim>\<open>int\<close>: sign extension to 64 bits.\<close>

definition to_size_t :: "32 word \<Rightarrow> 64 word" where
  "to_size_t i = scast i"

text \<open>
  The \<^verbatim>\<open>for (char c : line)\<close> loop of \<^verbatim>\<open>parse_line_and_count\<close>, with the loop
  state (\<^verbatim>\<open>current_word\<close>, \<^verbatim>\<open>local_map\<close>) passed along. The length of a
  \<^verbatim>\<open>std::string\<close> is a \<^verbatim>\<open>size_t\<close>, compared unsigned with the cast threshold.
\<close>

fun parse_chars :: "string \<Rightarrow> 32 word \<Rightarrow> string \<Rightarrow> counts \<Rightarrow> string \<times> counts" where
  "parse_chars [] mlen current_word local_map = (current_word, local_map)"
| "parse_chars (c # cs) mlen current_word local_map =
     (if is_word_char c
      then parse_chars cs mlen (current_word @ [tolower c]) local_map
      else parse_chars cs mlen []
             (if unat (to_size_t mlen) \<le> length current_word
              then add_count current_word 1 local_map else local_map))"

definition parse_line_and_count :: "string \<Rightarrow> 32 word \<Rightarrow> counts \<Rightarrow> counts" where
  "parse_line_and_count line mlen local_map =
     (case parse_chars line mlen [] local_map of
        (current_word, m) \<Rightarrow>
          if unat (to_size_t mlen) \<le> length current_word
          then add_count current_word 1 m else m)"

text \<open>The test and increment that follow a candidate token, at a separator or at the end of the line.\<close>

definition flush :: "32 word \<Rightarrow> string \<times> counts \<Rightarrow> counts" where
  "flush mlen s = (case s of (current_word, m) \<Rightarrow>
      if unat (to_size_t mlen) \<le> length current_word then add_count current_word 1 m else m)"

text \<open>
  The tokenizer as the specification words it: the maximal runs of word characters of
  the line, from left to right, each folded to lower case, those kept whose length
  reaches the minimum.
\<close>

function word_runs :: "string \<Rightarrow> string list" where
  "word_runs [] = []"
| "word_runs (c # cs) =
     (if is_word_char c
      then (c # takeWhile is_word_char cs) # word_runs (dropWhile is_word_char cs)
      else word_runs cs)"
  by pat_completeness auto
termination
  by (relation "measure length") (auto simp: length_dropWhile_le less_Suc_eq_le)

definition spec_tokens :: "nat \<Rightarrow> string \<Rightarrow> string list" where
  "spec_tokens n line = filter (\<lambda>t. n \<le> length t) (map (map tolower) (word_runs line))"

subsection \<open>The sharded table and the worker\<close>

definition NUM_SHARDS :: nat where
  "NUM_SHARDS = 16"

type_synonym table = "counts list"

definition empty_table :: table where
  "empty_table = replicate NUM_SHARDS []"

text \<open>\<^verbatim>\<open>std::hash<std::string>{}(word) % NUM_SHARDS\<close>, computed in \<^verbatim>\<open>size_t\<close>.\<close>

definition get_shard_index :: "env \<Rightarrow> string \<Rightarrow> nat" where
  "get_shard_index e word = unat (hash e word mod of_nat NUM_SHARDS)"

text \<open>
  One iteration of the merge loop of \<^verbatim>\<open>consumer\<close>:
  \<^verbatim>\<open>global_counts[shard][word] += count\<close>, atomic under the mutex of the shard.
\<close>

definition merge_entry :: "env \<Rightarrow> string \<times> 64 word \<Rightarrow> table \<Rightarrow> table" where
  "merge_entry e entry global_counts =
     (case entry of (word, cnt) \<Rightarrow>
        let shard = get_shard_index e word
        in global_counts[shard := add_count word cnt (global_counts ! shard)])"

text \<open>
  The \<^verbatim>\<open>while (queue.pop(file_path))\<close> loop of \<^verbatim>\<open>consumer\<close>, as one thread runs it
  when no other thread touches the queue meanwhile. \<open>None\<close>: the thread stays blocked in
  \<^verbatim>\<open>pop\<close>. Otherwise the queue, \<^verbatim>\<open>local_counts\<close> and the diagnostics written, at
  the exit of the loop.
\<close>

function consumer_loop ::
  "env \<Rightarrow> 32 word \<Rightarrow> ThreadSafeQueue \<Rightarrow> string \<Rightarrow> counts \<Rightarrow> diag list
     \<Rightarrow> (ThreadSafeQueue \<times> counts \<times> diag list) option" where
  "consumer_loop e mlen queue file_path local_counts err =
     (case pop queue file_path of
        None \<Rightarrow> None
      | Some (False, _, queue') \<Rightarrow> Some (queue', local_counts, err)
      | Some (True, file_path', queue') \<Rightarrow>
          (case read_lines e file_path' of
             None \<Rightarrow>
               consumer_loop e mlen queue' file_path' local_counts
                 (err @ [Failed_to_open_file file_path'])
           | Some lines \<Rightarrow>
               consumer_loop e mlen queue' file_path'
                 (fold (\<lambda>line m. parse_line_and_count line mlen m) lines local_counts) err))"
  by pat_completeness auto
termination
  by (relation "measure (\<lambda>(e, mlen, queue, file_path, local_counts, err). length (q queue))")
     (auto simp: pop_def split: list.splits if_splits)

declare consumer_loop.simps [simp del]

text \<open>
  \<^verbatim>\<open>consumer\<close>: the loop, then the merge of \<^verbatim>\<open>local_counts\<close> into the global table,
  entry by entry. The global \<^verbatim>\<open>global_counts\<close> is passed in and returned.
\<close>

definition consumer ::
  "env \<Rightarrow> ThreadSafeQueue \<Rightarrow> 32 word \<Rightarrow> table \<Rightarrow> (ThreadSafeQueue \<times> table \<times> diag list) option" where
  "consumer e queue mlen global_counts =
     (case consumer_loop e mlen queue [] [] [] of
        None \<Rightarrow> None
      | Some (queue', local_counts, err) \<Rightarrow>
          Some (queue', fold (merge_entry e) local_counts global_counts, err))"

text \<open>
  What the loop of \<^verbatim>\<open>consumer\<close> does to \<^verbatim>\<open>local_counts\<close> for one popped path
  (nothing when the file does not open, else one \<^verbatim>\<open>parse_line_and_count\<close> for each
  line) and for a sequence of popped paths; \<open>open_failures\<close> lists the diagnostics it
  writes. Lemma \<open>consumer_loop_closed\<close> relates them to \<open>consumer_loop\<close>.
\<close>

definition count_file :: "env \<Rightarrow> 32 word \<Rightarrow> string \<Rightarrow> counts \<Rightarrow> counts" where
  "count_file e mlen p m =
     (case read_lines e p of
        None \<Rightarrow> m
      | Some lines \<Rightarrow> fold (\<lambda>line m. parse_line_and_count line mlen m) lines m)"

definition count_files :: "env \<Rightarrow> 32 word \<Rightarrow> string list \<Rightarrow> counts \<Rightarrow> counts" where
  "count_files e mlen paths m = fold (count_file e mlen) paths m"

definition readable :: "env \<Rightarrow> string \<Rightarrow> bool" where
  "readable e p = (read_lines e p \<noteq> None)"

definition open_failures :: "env \<Rightarrow> string list \<Rightarrow> diag list" where
  "open_failures e paths = map Failed_to_open_file (filter (\<lambda>p. \<not> readable e p) paths)"

text \<open>
  The tokens for which the source executes \<^verbatim>\<open>local_map[current_word]++\<close>, in the order
  of execution: inside the character loop (\<open>emitted\<close>), for a whole line, for a file and
  for a sequence of files. They follow the code for every \<^verbatim>\<open>min_len\<close>, also one below
  1; lemma \<open>parse_line_tokens\<close> relates the code to \<open>spec_tokens\<close> for a minimum of at
  least 1.
\<close>

fun emitted :: "string \<Rightarrow> 32 word \<Rightarrow> string \<Rightarrow> string list" where
  "emitted [] mlen current_word = []"
| "emitted (c # cs) mlen current_word =
     (if is_word_char c then emitted cs mlen (current_word @ [tolower c])
      else (if unat (to_size_t mlen) \<le> length current_word then [current_word] else [])
           @ emitted cs mlen [])"

definition line_tokens :: "32 word \<Rightarrow> string \<Rightarrow> string list" where
  "line_tokens mlen line =
     emitted line mlen [] @
     (let current_word = fst (parse_chars line mlen [] [])
      in if unat (to_size_t mlen) \<le> length current_word then [current_word] else [])"

definition file_tokens :: "env \<Rightarrow> 32 word \<Rightarrow> string \<Rightarrow> string list" where
  "file_tokens e mlen p =
     (case read_lines e p of None \<Rightarrow> [] | Some lines \<Rightarrow> concat (map (line_tokens mlen) lines))"

definition all_tokens :: "env \<Rightarrow> 32 word \<Rightarrow> string list \<Rightarrow> string list" where
  "all_tokens e mlen paths = concat (map (file_tokens e mlen) paths)"

text \<open>
  The sum of the entries that the shards of a table hold for a word; the sum of the
  counts that a sequence of merge steps adds for a word; and the invariant of the table:
  it has \<^verbatim>\<open>NUM_SHARDS\<close> shards, no shard holds a word twice, and a word held by shard
  \<open>i\<close> has shard index \<open>i\<close>.
\<close>

definition table_total :: "table \<Rightarrow> string \<Rightarrow> 64 word" where
  "table_total t w = sum_list (map (\<lambda>m. count_of m w) t)"

definition steps_total :: "(string \<times> 64 word) list \<Rightarrow> string \<Rightarrow> 64 word" where
  "steps_total steps w = sum_list (map snd (filter (\<lambda>x. fst x = w) steps))"

definition table_inv :: "env \<Rightarrow> table \<Rightarrow> bool" where
  "table_inv e t =
     (length t = NUM_SHARDS \<and>
      (\<forall>i < NUM_SHARDS. distinct (map fst (t ! i)) \<and>
         (\<forall>w \<in> fst ` set (t ! i). get_shard_index e w = i)))"

subsection \<open>Ranking\<close>

text \<open>The comparison lambda that \<^verbatim>\<open>main\<close> passes to \<^verbatim>\<open>std::partial_sort\<close>.\<close>

definition comes_before :: "string \<times> 64 word \<Rightarrow> string \<times> 64 word \<Rightarrow> bool" where
  "comes_before a b = (if snd a \<noteq> snd b then snd b < snd a else fst a < fst b)"

text \<open>
  \<^verbatim>\<open>std::partial_sort(first, middle, last, comp)\<close> leaves in \<^verbatim>\<open>[first, middle)\<close> the
  \<^verbatim>\<open>middle - first\<close> smallest elements of the range, in order; the order of the
  others is unspecified. The model sorts the whole range by insertion, which is one such
  result; \<^verbatim>\<open>main\<close> reads \<^verbatim>\<open>[first, middle)\<close> only.
\<close>

fun insert_by :: "('a \<Rightarrow> 'a \<Rightarrow> bool) \<Rightarrow> 'a \<Rightarrow> 'a list \<Rightarrow> 'a list" where
  "insert_by lt x [] = [x]"
| "insert_by lt x (y # ys) = (if lt x y then x # y # ys else y # insert_by lt x ys)"

definition partial_sort :: "nat \<Rightarrow> ('a \<Rightarrow> 'a \<Rightarrow> bool) \<Rightarrow> 'a list \<Rightarrow> 'a list" where
  "partial_sort middle lt xs = foldr (insert_by lt) xs []"

text \<open>
  What the C++ standard promises of the range after \<^verbatim>\<open>std::partial_sort\<close>, for any
  implementation: \<open>ys\<close> is a permutation of \<open>xs\<close>, its first \<open>middle\<close> elements are in order,
  and none of the others comes before one of them. Lemma \<open>partial_sort_result_unique\<close>
  shows that, under the comparison of \<^verbatim>\<open>main\<close>, every such \<open>ys\<close> has the first
  \<open>middle\<close> elements of the model.
\<close>

definition partial_sort_result ::
  "nat \<Rightarrow> ('a \<Rightarrow> 'a \<Rightarrow> bool) \<Rightarrow> 'a list \<Rightarrow> 'a list \<Rightarrow> bool" where
  "partial_sort_result middle lt xs ys =
     (mset ys = mset xs \<and>
      sorted_wrt (\<lambda>a b. \<not> lt b a) (take middle ys) \<and>
      list_all (\<lambda>b. list_all (\<lambda>a. \<not> lt b a) (take middle ys)) (drop middle ys))"

text \<open>
  The end of \<^verbatim>\<open>main\<close>, from the flattened vector \<^verbatim>\<open>sorted_words\<close> on: the lines
  written to \<^verbatim>\<open>std::cout\<close>, as pairs.
\<close>

definition rank_words :: "32 word \<Rightarrow> (string \<times> 64 word) list \<Rightarrow> (string \<times> 64 word) list" where
  "rank_words m sorted_words =
     (let count_to_show = min (unat (to_size_t m)) (length sorted_words)
      in take count_to_show (partial_sort count_to_show comes_before sorted_words))"

subsection \<open>The program\<close>

text \<open>
  What a run leaves behind: the exit code, the lines on \<^verbatim>\<open>std::cout\<close> and
  \<^verbatim>\<open>std::cerr\<close>, and the number of worker threads it started.
\<close>

record outcome =
  exit_code :: int
  stdout :: "(string \<times> 64 word) list"
  stderr :: "diag list"
  workers_started :: nat

datatype result = Terminated exn | Blocked | Exited outcome

text \<open>
  The paths that the pops of worker \<open>i\<close> (of \<open>n\<close>) return, in their order: the queue is
  first in, first out, and each path is removed by the one \<^verbatim>\<open>pop\<close> that returns it.
\<close>

definition worker_share :: "env \<Rightarrow> nat \<Rightarrow> nat \<Rightarrow> string list \<Rightarrow> string list" where
  "worker_share e n i paths =
     map snd (filter (\<lambda>(k, p). pop_owner e k mod n = i) (enumerate 0 paths))"

text \<open>
  The workers, one after another, each running \<^verbatim>\<open>consumer\<close> on the sequence of items
  that its pops deliver, followed by the end of input.
\<close>

fun run_workers ::
  "env \<Rightarrow> 32 word \<Rightarrow> string list list \<Rightarrow> table \<Rightarrow> diag list \<Rightarrow> (table \<times> diag list) option" where
  "run_workers e mlen [] global_counts err = Some (global_counts, err)"
| "run_workers e mlen (share # shares) global_counts err =
     (case consumer e \<lparr>q = share, producer_done = True\<rparr> mlen global_counts of
        None \<Rightarrow> None
      | Some (_, global_counts', err') \<Rightarrow> run_workers e mlen shares global_counts' (err @ err'))"

text \<open>
  \<^verbatim>\<open>main\<close>. The threads are put in sequence: the producer pushes every path and calls
  \<^verbatim>\<open>set_done\<close>, then the workers run in turn, worker \<open>i\<close> on the paths that the
  scheduling \<open>pop_owner\<close> gives it. The theorems on the merged totals and on the ranked
  output hold for every partition of the paths and every order of the merge steps.
\<close>

definition main :: "env \<Rightarrow> string list \<Rightarrow> result" where
  "main e argv =
     (case parse_args e argv of
        Inl x \<Rightarrow> Terminated x
      | Inr (None, perr) \<Rightarrow>
          Exited \<lparr>exit_code = 1, stdout = [],
                  stderr = perr @ [Usage (case argv of [] \<Rightarrow> None | a # _ \<Rightarrow> Some a)],
                  workers_started = 0\<rparr>
      | Inr (Some config, perr) \<Rightarrow>
          (let n = nat (sint (threads config));
               walk = regular_files e (dir_path config);
               queue = set_done (fold push (fst walk) \<lparr>q = [], producer_done = False\<rparr>);
               shares = map (\<lambda>i. worker_share e n i (q queue)) [0..<n]
           in case run_workers e (min_len config) shares empty_table [] of
                None \<Rightarrow> Blocked
              | Some (global_counts, werr) \<Rightarrow>
                  Exited \<lparr>exit_code = 0,
                          stdout = rank_words (top_m config) (concat global_counts),
                          stderr = perr @ (if snd walk then [Filesystem_error] else []) @ werr,
                          workers_started = n\<rparr>))"

subsection \<open>Well-formed entries\<close>

text \<open>
  A well-formed word of an entry: it is not empty, at least as long as the minimum, and
  made of word characters none of which is an upper-case letter.
  \<open>words_well_formed\<close> says it of every entry of a map.
\<close>

definition lower_word_char :: "char \<Rightarrow> bool" where
  "lower_word_char c = (is_word_char c \<and> \<not> isupper c)"

definition well_formed_word :: "32 word \<Rightarrow> string \<Rightarrow> bool" where
  "well_formed_word mlen w = (w \<noteq> [] \<and> nat (sint mlen) \<le> length w \<and> list_all lower_word_char w)"

definition words_well_formed :: "32 word \<Rightarrow> counts \<Rightarrow> bool" where
  "words_well_formed mlen m = list_all (\<lambda>x. well_formed_word mlen (fst x)) m"

subsection \<open>A concrete environment\<close>

text \<open>
  The scenario of the specification: a directory \<^verbatim>\<open>dir\<close> whose traversal yields
  \<open>listing\<close>, with the file \<^verbatim>\<open>dir/A\<close> holding the line \<^verbatim>\<open>foo foo bar\<close> and the file
  \<^verbatim>\<open>dir/B\<close> the line \<^verbatim>\<open>bar baz foo\<close>; any other path fails to open. The hash and
  the scheduling are parameters. \<open>length_hash\<close> is one hash function, for evaluation.
\<close>

definition scenario_env :: "(string \<Rightarrow> 64 word) \<Rightarrow> (nat \<Rightarrow> nat) \<Rightarrow> string list \<Rightarrow> env" where
  "scenario_env h s listing =
     \<lparr>is_directory = (\<lambda>p. Some (p = ''dir'')),
      regular_files = (\<lambda>p. (listing, False)),
      read_lines = (\<lambda>p. if p = ''dir/A'' then Some [''foo foo bar'']
                         else if p = ''dir/B'' then Some [''bar baz foo''] else None),
      hash = h, pop_owner = s\<rparr>"

definition length_hash :: "string \<Rightarrow> 64 word" where
  "length_hash w = of_nat (length w)"

text \<open>
  An environment in which one word is counted \<open>2 ^ 64\<close> times: eight files, each of
  \<open>2 ^ 61\<close> lines \<^verbatim>\<open>a\<close>.
\<close>

definition overflow_paths :: "string list" where
  "overflow_paths = [''dir/0'', ''dir/1'', ''dir/2'', ''dir/3'', ''dir/4'', ''dir/5'', ''dir/6'', ''dir/7'']"

definition overflow_env :: env where
  "overflow_env =
     \<lparr>is_directory = (\<lambda>p. Some True),
      regular_files = (\<lambda>p. (overflow_paths, False)),
      read_lines = (\<lambda>p. Some (replicate (2 ^ 61) ''a'')),
      hash = length_hash, pop_owner = id\<rparr>"

section \<open>Properties\<close>

subsection \<open>The tokenizer\<close>

lemma sint_less_2p31: "sint (i :: 32 word) < 2 ^ 31"
  using sint_lt [of i] by simp

lemma uint_scast_32_64: "uint (scast (i :: 32 word) :: 64 word) = take_bit 64 (sint i)"
  by (simp only: scast_eq uint_word_of_int_eq len_of_numeral_defs) simp

lemma take_bit_sint_nonneg: "0 \<le> sint (i :: 32 word) \<Longrightarrow> take_bit 64 (sint i) = sint i"
  apply (rule take_bit_int_eq_self)
   apply assumption
  apply (rule less_trans [OF sint_less_2p31])
  apply simp
  done

lemma to_size_t_nonneg: "0 \<le> sint i \<Longrightarrow> unat (to_size_t i) = nat (sint i)"
  by (simp only: to_size_t_def unat_eq_nat_uint uint_scast_32_64 take_bit_sint_nonneg)

lemma to_size_t_pos: "1 \<le>s i \<Longrightarrow> unat (to_size_t i) = nat (sint i)"
  by (rule to_size_t_nonneg) (simp add: word_sle_eq)

lemma count_of_add_count:
  "count_of (add_count w c m) v = count_of m v + (if v = w then c else 0)"
  by (induction m) (auto simp: count_of_def)

lemma keys_add_count: "fst ` set (add_count w c m) = insert w (fst ` set m)"
proof (induction m)
  case Nil
  show ?case by simp
next
  case (Cons kv m)
  obtain k v where kv: "kv = (k, v)" by (cases kv)
  show ?case using Cons.IH by (cases "k = w") (simp_all add: kv insert_commute)
qed

lemma distinct_add_count:
  "distinct (map fst m) \<Longrightarrow> distinct (map fst (add_count w c m))"
  by (induction m) (auto simp: keys_add_count)

lemma count_of_fold_add_count:
  "count_of (fold (\<lambda>t. add_count t 1) ts m) v = count_of m v + of_nat (count_list ts v)"
  by (induction ts arbitrary: m) (auto simp: count_of_add_count)

text \<open>
  \<open>word_runs\<close> splits a line at its separators: a non-empty string of word characters is
  its own single run, and the runs of a line around a character that is not a word
  character are the runs before it followed by the runs after it.
\<close>

lemma takeWhile_before_separator:
  "\<not> P c \<Longrightarrow> takeWhile P (xs @ c # ys) = takeWhile P xs"
  by (induction xs) simp_all

lemma dropWhile_before_separator:
  "\<not> P c \<Longrightarrow> dropWhile P (xs @ c # ys) = dropWhile P xs @ c # ys"
  by (induction xs) simp_all

lemma word_runs_one_word:
  assumes "w \<noteq> []" and "list_all is_word_char w"
  shows "word_runs w = [w]"
proof -
  from assms obtain c cs where w: "w = c # cs" by (cases w) auto
  with assms(2) have c: "is_word_char c" and cs: "\<forall>x \<in> set cs. is_word_char x"
    by (simp_all add: list_all_iff)
  from cs have tw: "takeWhile is_word_char cs = cs" and dw: "dropWhile is_word_char cs = []"
    by simp_all
  show ?thesis
    unfolding w by (simp only: word_runs.simps c if_True tw dw)
qed

lemma word_runs_separator:
  assumes "\<not> is_word_char c"
  shows "word_runs (xs @ c # ys) = word_runs xs @ word_runs ys"
proof (induction xs rule: word_runs.induct)
  case 1
  show ?case using assms by simp
next
  case (2 x xs)
  show ?case
  proof (cases "is_word_char x")
    case True
    have "word_runs (dropWhile is_word_char xs @ c # ys) =
          word_runs (dropWhile is_word_char xs) @ word_runs ys"
      using True by (rule "2.IH"(1))
    then show ?thesis
      using True assms
      by (simp add: takeWhile_before_separator dropWhile_before_separator)
  next
    case False
    then show ?thesis using "2.IH"(2) by simp
  qed
qed

lemma word_runs_split:
  "word_runs cs =
     (if takeWhile is_word_char cs = [] then word_runs (dropWhile is_word_char cs)
      else takeWhile is_word_char cs # word_runs (dropWhile is_word_char cs))"
  by (cases cs) auto

lemma parse_chars_tokens:
  assumes "1 \<le> unat (to_size_t mlen)"
  shows "flush mlen (parse_chars cs mlen cur m) =
     fold (\<lambda>t. add_count t 1)
       (filter (\<lambda>t. unat (to_size_t mlen) \<le> length t)
          ((cur @ map tolower (takeWhile is_word_char cs))
             # map (map tolower) (word_runs (dropWhile is_word_char cs)))) m"
proof (induction cs arbitrary: cur m)
  case Nil
  show ?case by (simp add: flush_def)
next
  case (Cons c cs)
  show ?case
  proof (cases "is_word_char c")
    case True
    then show ?thesis using Cons.IH [of "cur @ [tolower c]" m] by simp
  next
    case False
    have "filter (\<lambda>t. unat (to_size_t mlen) \<le> length t) (map (map tolower) (word_runs cs)) =
          filter (\<lambda>t. unat (to_size_t mlen) \<le> length t)
            (map tolower (takeWhile is_word_char cs) # map (map tolower) (word_runs (dropWhile is_word_char cs)))"
      using assms by (subst word_runs_split) auto
    then show ?thesis using False Cons.IH [of "[]"] by (simp add: flush_def)
  qed
qed

lemma parse_line_tokens:
  assumes "1 \<le>s mlen"
  shows "parse_line_and_count line mlen m =
         fold (\<lambda>t. add_count t 1) (spec_tokens (nat (sint mlen)) line) m"
proof -
  have n: "unat (to_size_t mlen) = nat (sint mlen)"
    using assms by (rule to_size_t_pos)
  have pos: "1 \<le> unat (to_size_t mlen)"
    using assms by (simp add: n word_sle_eq)
  have "parse_line_and_count line mlen m = flush mlen (parse_chars line mlen [] m)"
    by (simp add: parse_line_and_count_def flush_def)
  also have "\<dots> = fold (\<lambda>t. add_count t 1)
       (filter (\<lambda>t. unat (to_size_t mlen) \<le> length t)
          ((map tolower (takeWhile is_word_char line))
             # map (map tolower) (word_runs (dropWhile is_word_char line)))) m"
    using parse_chars_tokens [OF pos, of line "[]" m] by simp
  also have "\<dots> = fold (\<lambda>t. add_count t 1) (spec_tokens (nat (sint mlen)) line) m"
    using pos unfolding spec_tokens_def n [symmetric] by (subst (2) word_runs_split) auto
  finally show ?thesis .
qed

lemma parse_chars_increment:
  "fst (parse_chars cs mlen cur m1) = fst (parse_chars cs mlen cur m2) \<and>
   count_of (snd (parse_chars cs mlen cur m1)) w - count_of m1 w =
   count_of (snd (parse_chars cs mlen cur m2)) w - count_of m2 w"
proof (induction cs arbitrary: cur m1 m2)
  case Nil
  show ?case by simp
next
  case (Cons c cs)
  show ?case
  proof (cases "is_word_char c")
    case True
    then show ?thesis using Cons.IH [of "cur @ [tolower c]" m1 m2] by simp
  next
    case False
    let ?e = "\<lambda>m. if unat (to_size_t mlen) \<le> length cur then add_count cur 1 m else m"
    have step: "count_of (?e m1) w - count_of m1 w = count_of (?e m2) w - count_of m2 w"
      by (simp add: count_of_add_count)
    have ih: "fst (parse_chars cs mlen [] (?e m1)) = fst (parse_chars cs mlen [] (?e m2))"
      and ih2: "count_of (snd (parse_chars cs mlen [] (?e m1))) w - count_of (?e m1) w =
                count_of (snd (parse_chars cs mlen [] (?e m2))) w - count_of (?e m2) w"
      using Cons.IH [of "[]" "?e m1" "?e m2"] by blast+
    have split: "\<And>a e m :: 64 word. a - m = (a - e) + (e - m)"
      by simp
    have "count_of (snd (parse_chars cs mlen [] (?e m1))) w - count_of m1 w =
          count_of (snd (parse_chars cs mlen [] (?e m2))) w - count_of m2 w"
      by (subst split [of _ _ "count_of (?e m1) w"], subst (2) split [of _ _ "count_of (?e m2) w"])
         (simp only: ih2 step)
    then show ?thesis using False ih by simp
  qed
qed

lemma parse_line_increment:
  "count_of (parse_line_and_count line mlen m1) w - count_of m1 w =
   count_of (parse_line_and_count line mlen m2) w - count_of m2 w"
proof -
  obtain c1 r1 where p1: "parse_chars line mlen [] m1 = (c1, r1)" by (cases "parse_chars line mlen [] m1")
  obtain c2 r2 where p2: "parse_chars line mlen [] m2 = (c2, r2)" by (cases "parse_chars line mlen [] m2")
  from parse_chars_increment [of line mlen "[]" m1 m2 w] p1 p2
  have c: "c1 = c2" and d: "count_of r1 w - count_of m1 w = count_of r2 w - count_of m2 w"
    by simp_all
  have split: "\<And>a e m :: 64 word. a - m = (a - e) + (e - m)"
    by simp
  show ?thesis
  proof (cases "unat (to_size_t mlen) \<le> length c1")
    case True
    have "count_of (add_count c1 1 r1) w - count_of m1 w = count_of (add_count c1 1 r2) w - count_of m2 w"
      by (subst split [of _ _ "count_of r1 w"], subst (2) split [of _ _ "count_of r2 w"])
         (simp only: d count_of_add_count add_diff_cancel_left')
    then show ?thesis using True by (simp add: parse_line_and_count_def p1 p2 c [symmetric])
  next
    case False
    then show ?thesis using d by (simp add: parse_line_and_count_def p1 p2 c [symmetric])
  qed
qed

text \<open>
  Claim C2. For every line and every minimum length of at least 1,
  \<^verbatim>\<open>parse_line_and_count\<close> increments the destination map once for each maximal run
  of word characters of the line, folded to lower case, whose length reaches the
  minimum, from left to right and the run at the end of the line included; shorter runs
  are dropped. So the count of every word grows by the number of such runs equal to it.
  The line \<^verbatim>\<open>"a bee cat dogs"\<close> with minimum 4 gives \<^verbatim>\<open>dogs:1\<close> alone, and
  \<^verbatim>\<open>"the cat sat"\<close> with minimum 1 counts its last word.
\<close>

theorem parse_line_and_count_tokenizes:
  assumes "1 \<le>s mlen"
  shows "parse_line_and_count line mlen local_map =
           fold (\<lambda>t. add_count t 1) (spec_tokens (nat (sint mlen)) line) local_map
       \<and> count_of (parse_line_and_count line mlen local_map) w =
           count_of local_map w + of_nat (count_list (spec_tokens (nat (sint mlen)) line) w)
       \<and> parse_line_and_count ''a bee cat dogs'' 4 [] = [(''dogs'', 1)]
       \<and> parse_line_and_count ''the cat sat'' 1 [] = [(''the'', 1), (''cat'', 1), (''sat'', 1)]"
proof -
  have ex1: "parse_line_and_count ''a bee cat dogs'' 4 [] = [(''dogs'', 1)]"
    by code_simp
  have ex2: "parse_line_and_count ''the cat sat'' 1 [] = [(''the'', 1), (''cat'', 1), (''sat'', 1)]"
    by code_simp
  show ?thesis
    using parse_line_tokens [OF assms] ex1 ex2 by (simp add: count_of_fold_add_count)
qed

theorem parse_line_and_count_tokenizes_witness:
  "(1 :: 32 word) \<le>s 2 \<and>
   parse_line_and_count ''Ab c ab'' 2 [(''ab'', 7)] =
     fold (\<lambda>t. add_count t 1) (spec_tokens (nat (sint (2 :: 32 word))) ''Ab c ab'') [(''ab'', 7)] \<and>
   parse_line_and_count ''Ab c ab'' 2 [(''ab'', 7)] = [(''ab'', 9)]"
proof -
  have h: "(1 :: 32 word) \<le>s 2" by (simp add: word_sle_eq)
  have "parse_line_and_count ''Ab c ab'' 2 [(''ab'', 7)] = [(''ab'', 9)]"
    by code_simp
  then show ?thesis
    using h parse_line_and_count_tokenizes [OF h, of "''Ab c ab''" "[(''ab'', 7)]"] by simp
qed

text \<open>
  Claim C9. \<^verbatim>\<open>parse_line_and_count\<close> is a function of the line, the minimum length
  and the destination map, and what it adds to the count of a word does not depend on
  the destination: two runs on the same line add the same increments, whatever the maps
  they start from; in particular a second run on the map the first one returned adds
  what the first one added.
\<close>

theorem parse_line_and_count_deterministic:
  "count_of (parse_line_and_count line mlen m1) w - count_of m1 w =
     count_of (parse_line_and_count line mlen m2) w - count_of m2 w
   \<and> count_of (parse_line_and_count line mlen (parse_line_and_count line mlen m)) w
       - count_of (parse_line_and_count line mlen m) w =
     count_of (parse_line_and_count line mlen m) w - count_of m w"
  using parse_line_increment [of line mlen m1 w m2]
    parse_line_increment [of line mlen "parse_line_and_count line mlen m" w m]
  by simp

subsection \<open>The work queue\<close>

lemma delivered_append: "delivered (xs @ ys) = delivered xs @ delivered ys"
  by (induction xs rule: delivered.induct) auto

lemma pop_empty:
  "q s = [] \<Longrightarrow> pop s fp = (if producer_done s then Some (False, fp, s) else None)"
  by (simp add: pop_def)

lemma pop_front: "q s = front # rest \<Longrightarrow> pop s fp = Some (True, front, s\<lparr>q := rest\<rparr>)"
  by (simp add: pop_def)

lemma queue_run_fifo:
  "queue_run ops s res = Some (s', res') \<Longrightarrow>
   delivered res' @ q s' = delivered res @ q s @ pushed ops"
proof (induction ops arbitrary: s res)
  case Nil
  then show ?case by simp
next
  case (Cons op ops)
  show ?case
  proof (cases op)
    case (Push p)
    with Cons.prems Cons.IH [of "push p s" res] show ?thesis
      by (simp add: push_def)
  next
    case Set_done
    with Cons.prems Cons.IH [of "set_done s" res] show ?thesis
      by (simp add: set_done_def)
  next
    case Pop
    show ?thesis
    proof (cases "q s")
      case Nil
      with Pop Cons.prems have run: "producer_done s" "queue_run ops s (res @ [None]) = Some (s', res')"
        by (simp_all add: pop_empty split: if_splits)
      from Cons.IH [OF run(2)] Nil Pop show ?thesis
        by (simp add: delivered_append)
    next
      case (Cons front rest)
      with Pop Cons.prems have run: "queue_run ops (s\<lparr>q := rest\<rparr>) (res @ [Some front]) = Some (s', res')"
        by (simp add: pop_front)
      from Cons.IH [OF run] Cons Pop show ?thesis
        by (simp add: delivered_append)
    qed
  qed
qed

lemma queue_run_pops_closed:
  "producer_done s \<Longrightarrow>
   queue_run (replicate (length (q s) + n) Pop) s res =
     Some (s\<lparr>q := []\<rparr>, res @ map Some (q s) @ replicate n None)"
proof (induction "q s" arbitrary: s res)
  case Nil
  then have "queue_run (replicate n Pop) s res = Some (s, res @ replicate n None)"
  proof (induction n arbitrary: res)
    case 0
    show ?case by simp
  next
    case (Suc n)
    from Suc.prems Suc.IH [of "res @ [None]"]
    show ?case by (simp add: pop_def replicate_append_same)
  qed
  with Nil show ?case by simp
next
  case (Cons front rest)
  from Cons.hyps(2) [symmetric] Cons.prems
    Cons.hyps(1) [of "s\<lparr>q := rest\<rparr>" "res @ [Some front]"]
  show ?case by (simp add: pop_def)
qed

text \<open>
  Claim C6. In every state of the queue, \<^verbatim>\<open>pop\<close> blocks exactly when the queue is
  empty and not closed, returns \<^verbatim>\<open>false\<close> (end of input, the state unchanged) exactly
  when it is empty and closed, and otherwise returns the front item, the one pushed
  first among those present: in every history from the empty queue the paths popped so
  far followed by the paths still queued are the paths pushed, in the order of the
  pushes. Once \<^verbatim>\<open>set_done\<close> has been called, the pops that follow deliver the queued
  paths in order and then every further pop returns the end of input; none blocks.
\<close>

theorem queue_pop_contract:
  "(pop s fp = None \<longleftrightarrow> q s = [] \<and> \<not> producer_done s)
   \<and> ((\<exists>fp' s'. pop s fp = Some (False, fp', s')) \<longleftrightarrow> q s = [] \<and> producer_done s)
   \<and> (q s = [] \<and> producer_done s \<longrightarrow> pop s fp = Some (False, fp, s))
   \<and> (q s = front # rest \<longrightarrow> pop s fp = Some (True, front, s\<lparr>q := rest\<rparr>))
   \<and> (queue_run ops \<lparr>q = [], producer_done = False\<rparr> [] = Some (s', res) \<longrightarrow>
        delivered res @ q s' = pushed ops)
   \<and> queue_run (replicate (length (q s) + n) Pop) (set_done s) [] =
        Some (set_done (s\<lparr>q := []\<rparr>), map Some (q s) @ replicate n None)"
proof -
  have a: "pop s fp = None \<longleftrightarrow> q s = [] \<and> \<not> producer_done s"
    by (cases "q s") (simp_all add: pop_empty pop_front)
  have b: "(\<exists>fp' s'. pop s fp = Some (False, fp', s')) \<longleftrightarrow> q s = [] \<and> producer_done s"
    by (cases "q s") (simp_all add: pop_empty pop_front)
  have c: "q s = [] \<and> producer_done s \<longrightarrow> pop s fp = Some (False, fp, s)"
    by (simp add: pop_def)
  have d: "q s = front # rest \<longrightarrow> pop s fp = Some (True, front, s\<lparr>q := rest\<rparr>)"
    by (simp add: pop_def)
  have e: "queue_run ops \<lparr>q = [], producer_done = False\<rparr> [] = Some (s', res) \<longrightarrow>
        delivered res @ q s' = pushed ops"
    using queue_run_fifo [of ops "\<lparr>q = [], producer_done = False\<rparr>" "[]" s' res] by simp
  have f: "queue_run (replicate (length (q s) + n) Pop) (set_done s) [] =
        Some (set_done (s\<lparr>q := []\<rparr>), map Some (q s) @ replicate n None)"
    using queue_run_pops_closed [of "set_done s" n "[]"] by (simp add: set_done_def)
  from a b c d e f show ?thesis by blast
qed

theorem queue_pop_contract_witness:
  "queue_run [Push ''a'', Push ''b'', Pop, Set_done, Pop, Pop, Pop] \<lparr>q = [], producer_done = False\<rparr> []
     = Some (\<lparr>q = [], producer_done = True\<rparr>, [Some ''a'', Some ''b'', None, None])
   \<and> delivered [Some ''a'', Some ''b'', None, None] @ q \<lparr>q = [], producer_done = True\<rparr>
       = pushed [Push ''a'', Push ''b'', Pop, Set_done, Pop, Pop, Pop]
   \<and> q \<lparr>q = [''a'', ''b''], producer_done = False\<rparr> = ''a'' # [''b'']
   \<and> pop \<lparr>q = [''a'', ''b''], producer_done = False\<rparr> ''x''
       = Some (True, ''a'', \<lparr>q = [''b''], producer_done = False\<rparr>)
   \<and> q \<lparr>q = [], producer_done = True\<rparr> = [] \<and> producer_done \<lparr>q = [], producer_done = True\<rparr>
   \<and> pop \<lparr>q = [], producer_done = True\<rparr> ''x'' = Some (False, ''x'', \<lparr>q = [], producer_done = True\<rparr>)"
proof -
  have run: "queue_run [Push ''a'', Push ''b'', Pop, Set_done, Pop, Pop, Pop] \<lparr>q = [], producer_done = False\<rparr> []
     = Some (\<lparr>q = [], producer_done = True\<rparr>, [Some ''a'', Some ''b'', None, None])"
    by (simp add: push_def pop_def set_done_def)
  from run
    queue_pop_contract [of "\<lparr>q = [], producer_done = False\<rparr>" "''x''" "''a''" "[''b'']"
      "[Push ''a'', Push ''b'', Pop, Set_done, Pop, Pop, Pop]"
      "\<lparr>q = [], producer_done = True\<rparr>" "[Some ''a'', Some ''b'', None, None]" 0]
    queue_pop_contract [of "\<lparr>q = [''a'', ''b''], producer_done = False\<rparr>" "''x''" "''a''" "[''b'']"]
    queue_pop_contract [of "\<lparr>q = [], producer_done = True\<rparr>" "''x''"]
  show ?thesis by simp
qed

subsection \<open>Argument parsing\<close>

lemma sless_iff_not_sle: "(x <s (1 :: 32 word)) = (\<not> 1 \<le>s x)"
  by (simp add: word_sless_alt word_sle_eq not_le)

lemma parse_args_accepts:
  "parse_args e argv = Inr (Some config, perr) \<Longrightarrow>
   1 \<le>s threads config \<and> 1 \<le>s top_m config \<and> 1 \<le>s min_len config \<and>
   is_directory e (dir_path config) = Some True"
  by (auto simp: parse_args_def sless_iff_not_sle
      split: if_splits sum.splits option.splits prod.splits bool.splits)

lemma parse_args_rejects:
  assumes "2 \<le> length argv"
    and "parse_options (butlast (tl argv))
           \<lparr>threads = 1, top_m = 10, min_len = 1, dir_path = last argv\<rparr> = Inr (Some config, perr)"
    and "threads config <s 1 \<or> top_m config <s 1 \<or> min_len config <s 1"
  shows "parse_args e argv = Inr (None, perr @ [Parameters_must_be_ge_1])"
  using assms by (simp add: parse_args_def)

lemma main_rejected:
  "parse_args e argv = Inr (None, perr) \<Longrightarrow>
   main e argv = Exited \<lparr>exit_code = 1, stdout = [],
       stderr = perr @ [Usage (case argv of [] \<Rightarrow> None | a # _ \<Rightarrow> Some a)], workers_started = 0\<rparr>"
  by (simp add: main_def)

lemma main_started:
  assumes "main e argv = Exited r" and "0 < workers_started r"
  shows "\<exists>config perr. parse_args e argv = Inr (Some config, perr)"
proof (cases "parse_args e argv")
  case (Inl x)
  with assms show ?thesis by (simp add: main_def)
next
  case (Inr p)
  obtain c perr where p: "p = (c, perr)" by (cases p)
  show ?thesis
  proof (cases c)
    case None
    with assms Inr p show ?thesis by (auto simp: main_def)
  next
    case (Some config)
    with Inr p show ?thesis by simp
  qed
qed


text \<open>
  Claim C8. When the options of the argument vector give a configuration in which
  \<^verbatim>\<open>threads\<close>, \<^verbatim>\<open>top_m\<close> or \<^verbatim>\<open>min_len\<close> is less than 1, \<^verbatim>\<open>parse_args\<close>
  writes \<^verbatim>\<open>Parameters must be >= 1\<close> and returns \<^verbatim>\<open>false\<close>, and \<^verbatim>\<open>main\<close> writes
  the usage line and returns 1 without starting a worker. A configuration that
  \<^verbatim>\<open>parse_args\<close> accepts has all three values at least 1, and a run that started a
  worker had its configuration accepted.
\<close>

theorem configuration_validation:
  "(2 \<le> length argv \<and>
    parse_options (butlast (tl argv))
      \<lparr>threads = 1, top_m = 10, min_len = 1, dir_path = last argv\<rparr> = Inr (Some config, perr) \<and>
    (threads config <s 1 \<or> top_m config <s 1 \<or> min_len config <s 1)
    \<longrightarrow> parse_args e argv = Inr (None, perr @ [Parameters_must_be_ge_1]) \<and>
        main e argv = Exited \<lparr>exit_code = 1, stdout = [],
          stderr = perr @ [Parameters_must_be_ge_1, Usage (Some (hd argv))], workers_started = 0\<rparr>)
   \<and> (parse_args e argv = Inr (Some config', perr') \<longrightarrow>
        1 \<le>s threads config' \<and> 1 \<le>s top_m config' \<and> 1 \<le>s min_len config')
   \<and> (main e argv = Exited r \<and> 0 < workers_started r \<longrightarrow>
        (\<exists>c p. parse_args e argv = Inr (Some c, p) \<and>
           1 \<le>s threads c \<and> 1 \<le>s top_m c \<and> 1 \<le>s min_len c))"
proof -
  have a: "parse_args e argv = Inr (None, perr @ [Parameters_must_be_ge_1]) \<and>
        main e argv = Exited \<lparr>exit_code = 1, stdout = [],
          stderr = perr @ [Parameters_must_be_ge_1, Usage (Some (hd argv))], workers_started = 0\<rparr>"
    if len: "2 \<le> length argv"
      and opts: "parse_options (butlast (tl argv))
        \<lparr>threads = 1, top_m = 10, min_len = 1, dir_path = last argv\<rparr> = Inr (Some config, perr)"
      and bad: "threads config <s 1 \<or> top_m config <s 1 \<or> min_len config <s 1"
  proof -
    have rej: "parse_args e argv = Inr (None, perr @ [Parameters_must_be_ge_1])"
      using len opts bad by (rule parse_args_rejects)
    obtain a rest where argv: "argv = a # rest" using len by (cases argv) auto
    show ?thesis using main_rejected [OF rej] rej by (simp add: argv)
  qed
  have b: "1 \<le>s threads config' \<and> 1 \<le>s top_m config' \<and> 1 \<le>s min_len config'"
    if "parse_args e argv = Inr (Some config', perr')"
    using parse_args_accepts [OF that] by simp
  have c: "\<exists>c p. parse_args e argv = Inr (Some c, p) \<and>
           1 \<le>s threads c \<and> 1 \<le>s top_m c \<and> 1 \<le>s min_len c"
    if "main e argv = Exited r" and "0 < workers_started r"
  proof -
    from main_started [OF that] obtain c p where "parse_args e argv = Inr (Some c, p)" by blast
    with parse_args_accepts [OF this] show ?thesis by blast
  qed
  from a b c show ?thesis by blast
qed

theorem configuration_validation_witness:
  "2 \<le> length [''counter'', ''--minlen'', ''0'', ''dir''] \<and>
   parse_options (butlast (tl [''counter'', ''--minlen'', ''0'', ''dir'']))
      \<lparr>threads = 1, top_m = 10, min_len = 1, dir_path = last [''counter'', ''--minlen'', ''0'', ''dir'']\<rparr>
     = Inr (Some \<lparr>threads = 1, top_m = 10, min_len = 0, dir_path = ''dir''\<rparr>, []) \<and>
   min_len \<lparr>threads = 1, top_m = 10, min_len = 0, dir_path = ''dir''\<rparr> <s 1 \<and>
   main \<lparr>is_directory = (\<lambda>p. Some True), regular_files = (\<lambda>p. ([], False)),
          read_lines = (\<lambda>p. None), hash = (\<lambda>w. 0), pop_owner = (\<lambda>k. 0)\<rparr>
        [''counter'', ''--minlen'', ''0'', ''dir'']
     = Exited \<lparr>exit_code = 1, stdout = [],
          stderr = [Parameters_must_be_ge_1, Usage (Some ''counter'')], workers_started = 0\<rparr> \<and>
   parse_args \<lparr>is_directory = (\<lambda>p. Some True), regular_files = (\<lambda>p. ([], False)),
          read_lines = (\<lambda>p. None), hash = (\<lambda>w. 0), pop_owner = (\<lambda>k. 0)\<rparr>
        [''counter'', ''--threads'', ''2'', ''dir'']
     = Inr (Some \<lparr>threads = 2, top_m = 10, min_len = 1, dir_path = ''dir''\<rparr>, []) \<and>
   1 \<le>s threads \<lparr>threads = 2, top_m = 10, min_len = 1, dir_path = ''dir''\<rparr> \<and>
   main \<lparr>is_directory = (\<lambda>p. Some True), regular_files = (\<lambda>p. ([], False)),
          read_lines = (\<lambda>p. None), hash = (\<lambda>w. 0), pop_owner = (\<lambda>k. 0)\<rparr>
        [''counter'', ''--threads'', ''2'', ''dir'']
     = Exited \<lparr>exit_code = 0, stdout = [], stderr = [], workers_started = 2\<rparr>"
proof -
  let ?e = "\<lparr>is_directory = (\<lambda>p. Some True), regular_files = (\<lambda>p. ([], False)),
          read_lines = (\<lambda>p. None), hash = (\<lambda>w. 0), pop_owner = (\<lambda>k. 0)\<rparr>"
  let ?bad = "[''counter'', ''--minlen'', ''0'', ''dir'']"
  let ?good = "[''counter'', ''--threads'', ''2'', ''dir'']"
  have len: "2 \<le> length ?bad" by simp
  have opts: "parse_options (butlast (tl ?bad))
      \<lparr>threads = 1, top_m = 10, min_len = 1, dir_path = last ?bad\<rparr>
     = Inr (Some \<lparr>threads = 1, top_m = 10, min_len = 0, dir_path = ''dir''\<rparr>, [])"
    by code_simp
  have bad: "min_len \<lparr>threads = 1, top_m = 10, min_len = 0, dir_path = ''dir''\<rparr> <s 1"
    by (simp add: word_sless_alt)
  have acc: "parse_args ?e ?good
     = Inr (Some \<lparr>threads = 2, top_m = 10, min_len = 1, dir_path = ''dir''\<rparr>, [])"
    by code_simp
  have run: "main ?e ?good = Exited \<lparr>exit_code = 0, stdout = [], stderr = [], workers_started = 2\<rparr>"
    by code_simp
  from len opts bad acc run
    configuration_validation [of ?bad "\<lparr>threads = 1, top_m = 10, min_len = 0, dir_path = ''dir''\<rparr>" "[]"
      ?e "\<lparr>threads = 2, top_m = 10, min_len = 1, dir_path = ''dir''\<rparr>" "[]"
      "\<lparr>exit_code = 0, stdout = [], stderr = [], workers_started = 2\<rparr>"]
    configuration_validation [of ?good "\<lparr>threads = 1, top_m = 10, min_len = 0, dir_path = ''dir''\<rparr>" "[]"
      ?e "\<lparr>threads = 2, top_m = 10, min_len = 1, dir_path = ''dir''\<rparr>" "[]"
      "\<lparr>exit_code = 0, stdout = [], stderr = [], workers_started = 2\<rparr>"]
  show ?thesis by simp
qed


subsection \<open>The worker and the sharded table\<close>

lemma consumer_loop_closed:
  "q s = paths \<Longrightarrow> producer_done s \<Longrightarrow>
   consumer_loop e mlen s fp m err =
     Some (s\<lparr>q := []\<rparr>, count_files e mlen paths m, err @ open_failures e paths)"
proof (induction paths arbitrary: s fp m err)
  case Nil
  then show ?case
    by (subst consumer_loop.simps) (simp add: pop_empty count_files_def open_failures_def)
next
  case (Cons p paths)
  have pop: "pop s fp = Some (True, p, s\<lparr>q := paths\<rparr>)"
    using Cons.prems(1) by (rule pop_front)
  have ih: "consumer_loop e mlen (s\<lparr>q := paths\<rparr>) p m' err' =
     Some (s\<lparr>q := []\<rparr>, count_files e mlen paths m', err' @ open_failures e paths)" for m' err'
    using Cons.IH [of "s\<lparr>q := paths\<rparr>" p m' err'] Cons.prems(2) by simp
  show ?case
  proof (cases "read_lines e p")
    case None
    then show ?thesis
      by (subst consumer_loop.simps)
         (simp add: pop ih count_files_def count_file_def open_failures_def readable_def)
  next
    case (Some lines)
    then show ?thesis
      by (subst consumer_loop.simps)
         (simp add: pop ih count_files_def count_file_def open_failures_def readable_def)
  qed
qed

lemma consumer_loop_open:
  "\<not> producer_done s \<Longrightarrow> consumer_loop e mlen s fp m err = None"
proof (induction "q s" arbitrary: s fp m err)
  case Nil
  then show ?case 
    by (subst consumer_loop.simps) (simp add: pop_empty)
next
  case (Cons p paths)
  have pop: "pop s fp = Some (True, p, s\<lparr>q := paths\<rparr>)"
    using Cons.hyps(2) [symmetric] by (rule pop_front)
  have ih: "consumer_loop e mlen (s\<lparr>q := paths\<rparr>) p m' err' = None" for m' err'
    using Cons.hyps(1) [of "s\<lparr>q := paths\<rparr>" p m' err'] Cons.prems by simp
  show ?case
    by (subst consumer_loop.simps) (simp add: pop ih split: option.splits)
qed

lemma count_files_skip:
  "count_files e mlen (filter (readable e) paths) m = count_files e mlen paths m"
  unfolding count_files_def
  by (induction paths arbitrary: m) (auto simp: readable_def count_file_def)

lemma count_files_append:
  "count_files e mlen (ps @ qs) m = count_files e mlen qs (count_files e mlen ps m)"
  by (simp add: count_files_def)

lemma consumer_closed:
  "consumer e \<lparr>q = paths, producer_done = True\<rparr> mlen t =
     Some (\<lparr>q = [], producer_done = True\<rparr>,
           fold (merge_entry e) (count_files e mlen paths []) t, open_failures e paths)"
  using consumer_loop_closed [of "\<lparr>q = paths, producer_done = True\<rparr>" paths e mlen "[]" "[]" "[]"]
  by (simp add: consumer_def)

lemma run_workers_result:
  "run_workers e mlen shares t err =
     Some (fold (merge_entry e) (concat (map (\<lambda>share. count_files e mlen share []) shares)) t,
           err @ concat (map (open_failures e) shares))"
  by (induction shares arbitrary: t err) (simp_all add: consumer_closed)

lemma parse_chars_emitted:
  "parse_chars cs mlen cur m =
     (fst (parse_chars cs mlen cur []), fold (\<lambda>t. add_count t 1) (emitted cs mlen cur) m)"
proof (induction cs arbitrary: cur m)
  case Nil
  show ?case by simp
next
  case (Cons c cs)
  show ?case
  proof (cases "is_word_char c")
    case True
    then show ?thesis using Cons.IH [of "cur @ [tolower c]" m] by simp
  next
    case False
    let ?e = "\<lambda>m. if unat (to_size_t mlen) \<le> length cur then add_count cur 1 m else m"
    have "parse_chars cs mlen [] (?e m) =
       (fst (parse_chars cs mlen [] []), fold (\<lambda>t. add_count t 1) (emitted cs mlen []) (?e m))"
      by (rule Cons.IH)
    moreover have "fst (parse_chars cs mlen [] (?e [])) = fst (parse_chars cs mlen [] [])"
      by (subst Cons.IH) simp
    ultimately show ?thesis using False by simp
  qed
qed

lemma parse_line_line_tokens:
  "parse_line_and_count line mlen m = fold (\<lambda>t. add_count t 1) (line_tokens mlen line) m"
  by (subst parse_line_and_count_def, subst parse_chars_emitted)
     (simp add: line_tokens_def Let_def)

lemma fold_concat_map:
  "fold (\<lambda>x. fold f (g x)) xs m = fold f (concat (map g xs)) m"
  by (induction xs arbitrary: m) simp_all

lemma count_file_tokens:
  "count_file e mlen p m = fold (\<lambda>t. add_count t 1) (file_tokens e mlen p) m"
proof (cases "read_lines e p")
  case None
  then show ?thesis by (simp add: count_file_def file_tokens_def)
next
  case (Some lines)
  have "fold (\<lambda>line. parse_line_and_count line mlen) lines m =
        fold (\<lambda>line. fold (\<lambda>t. add_count t 1) (line_tokens mlen line)) lines m"
    by (simp add: parse_line_line_tokens [abs_def])
  then show ?thesis using Some
    by (simp add: count_file_def file_tokens_def fold_concat_map)
qed

lemma count_files_tokens:
  "count_files e mlen paths m = fold (\<lambda>t. add_count t 1) (all_tokens e mlen paths) m"
proof -
  have "fold (count_file e mlen) paths m =
        fold (\<lambda>p. fold (\<lambda>t. add_count t 1) (file_tokens e mlen p)) paths m"
    by (simp add: count_file_tokens [abs_def])
  then show ?thesis
    by (simp add: count_files_def all_tokens_def fold_concat_map)
qed

lemma keys_fold_add_count:
  "fst ` set (fold (\<lambda>t. add_count t c) ts m) = fst ` set m \<union> set ts"
  by (induction ts arbitrary: m) (auto simp: keys_add_count)

lemma distinct_fold_add_count:
  "distinct (map fst m) \<Longrightarrow> distinct (map fst (fold (\<lambda>t. add_count t c) ts m))"
  by (induction ts arbitrary: m) (simp_all add: distinct_add_count)

lemma count_of_count_files:
  "count_of (count_files e mlen paths []) w = of_nat (count_list (all_tokens e mlen paths) w)"
proof -
  have "count_of [] w = 0" by (simp add: count_of_def)
  then show ?thesis by (simp add: count_files_tokens count_of_fold_add_count)
qed

lemma keys_count_files:
  "fst ` set (count_files e mlen paths []) = set (all_tokens e mlen paths)"
  by (simp add: count_files_tokens keys_fold_add_count)

lemma distinct_count_files:
  "distinct (map fst (count_files e mlen paths []))"
  by (simp add: count_files_tokens distinct_fold_add_count)

lemma all_tokens_append:
  "all_tokens e mlen (ps @ qs) = all_tokens e mlen ps @ all_tokens e mlen qs"
  by (simp add: all_tokens_def)

lemma get_shard_index_less: "get_shard_index e w < NUM_SHARDS"
proof -
  have "hash e w mod 16 < 16"
    by (rule word_mod_less_divisor) simp
  then have "unat (hash e w mod 16) < unat (16 :: 64 word)"
    by (simp only: word_less_nat_alt)
  then show ?thesis by (simp add: get_shard_index_def NUM_SHARDS_def)
qed

lemma length_merge_entry: "length (merge_entry e x t) = length t"
  by (cases x) (simp add: merge_entry_def Let_def)

lemma nth_merge_entry:
  "length t = NUM_SHARDS \<Longrightarrow> i < NUM_SHARDS \<Longrightarrow>
   merge_entry e (w, c) t ! i =
     (if i = get_shard_index e w then add_count w c (t ! i) else t ! i)"
  by (simp add: merge_entry_def Let_def)

lemma table_inv_empty: "table_inv e empty_table"
  by (simp add: table_inv_def empty_table_def)

lemma table_inv_merge_entry:
  assumes "table_inv e t"
  shows "table_inv e (merge_entry e x t)"
proof -
  obtain w c where x: "x = (w, c)" by (cases x)
  have len: "length t = NUM_SHARDS" using assms by (simp add: table_inv_def)
  show ?thesis
    unfolding table_inv_def
  proof (intro conjI allI impI)
    show "length (merge_entry e x t) = NUM_SHARDS"
      by (simp add: length_merge_entry len)
  next
    fix i assume i: "i < NUM_SHARDS"
    from assms i have d: "distinct (map fst (t ! i))"
      and h: "\<forall>v \<in> fst ` set (t ! i). get_shard_index e v = i"
      by (simp_all add: table_inv_def)
    have nth: "merge_entry e x t ! i =
        (if i = get_shard_index e w then add_count w c (t ! i) else t ! i)"
      unfolding x by (rule nth_merge_entry [OF len i])
    show "distinct (map fst (merge_entry e x t ! i))"
      unfolding nth using d by (auto simp add: distinct_add_count)
    show "\<forall>v \<in> fst ` set (merge_entry e x t ! i). get_shard_index e v = i"
    proof (cases "i = get_shard_index e w")
      case True
      have keys: "fst ` set (merge_entry e x t ! i) = insert w (fst ` set (t ! i))"
        unfolding nth by (simp add: True keys_add_count)
      show ?thesis
      proof
        fix v assume "v \<in> fst ` set (merge_entry e x t ! i)"
        then have "v = w \<or> v \<in> fst ` set (t ! i)"
          unfolding keys by blast
        then show "get_shard_index e v = i"
          using h True by blast
      qed
    next
      case False
      then show ?thesis using h by (simp add: nth)
    qed
  qed
qed

lemma table_inv_fold: "table_inv e t \<Longrightarrow> table_inv e (fold (merge_entry e) steps t)"
  by (induction steps arbitrary: t) (simp_all add: table_inv_merge_entry)

lemma steps_total_Cons:
  "steps_total ((w, c) # steps) v = (if v = w then c else 0) + steps_total steps v"
  by (simp add: steps_total_def)

lemma shard_count_fold:
  assumes "length t = NUM_SHARDS"
  shows "count_of (fold (merge_entry e) steps t ! get_shard_index e v) v =
         count_of (t ! get_shard_index e v) v + steps_total steps v"
  using assms
proof (induction steps arbitrary: t)
  case Nil
  show ?case by (simp add: steps_total_def)
next
  case (Cons x steps)
  obtain w c where x: "x = (w, c)" by (cases x)
  have len: "length (merge_entry e x t) = NUM_SHARDS"
    using Cons.prems by (simp add: length_merge_entry)
  have nth: "merge_entry e x t ! get_shard_index e v =
        (if get_shard_index e v = get_shard_index e w
         then add_count w c (t ! get_shard_index e v) else t ! get_shard_index e v)"
    unfolding x by (rule nth_merge_entry [OF Cons.prems get_shard_index_less])
  have one: "count_of (merge_entry e x t ! get_shard_index e v) v =
        count_of (t ! get_shard_index e v) v + (if v = w then c else 0)"
    unfolding nth by (auto simp add: count_of_add_count)
  have "count_of (fold (merge_entry e) (x # steps) t ! get_shard_index e v) v =
        count_of (merge_entry e x t ! get_shard_index e v) v + steps_total steps v"
    using Cons.IH [OF len] by simp
  also have "\<dots> = count_of (t ! get_shard_index e v) v +
        ((if v = w then c else 0) + steps_total steps v)"
    by (simp only: one add.assoc)
  also have "\<dots> = count_of (t ! get_shard_index e v) v + steps_total (x # steps) v"
    by (simp only: x steps_total_Cons)
  finally show ?case .
qed

lemma shard_keys_insert:
  "A \<union> (if g w = i then {w} else {}) \<union> {v \<in> K. g v = i} = A \<union> {v \<in> insert w K. g v = i}"
  by auto

lemma shard_keys_fold:
  assumes "length t = NUM_SHARDS" and "i < NUM_SHARDS"
  shows "fst ` set (fold (merge_entry e) steps t ! i) =
         fst ` set (t ! i) \<union> {w \<in> fst ` set steps. get_shard_index e w = i}"
  using assms
proof (induction steps arbitrary: t)
  case Nil
  show ?case by simp
next
  case (Cons x steps)
  obtain w c where x: "x = (w, c)" by (cases x)
  have len: "length (merge_entry e x t) = NUM_SHARDS"
    using Cons.prems by (simp add: length_merge_entry)
  have nth: "merge_entry e x t ! i =
        (if i = get_shard_index e w then add_count w c (t ! i) else t ! i)"
    unfolding x by (rule nth_merge_entry [OF Cons.prems])
  have one: "fst ` set (merge_entry e x t ! i) =
        fst ` set (t ! i) \<union> (if get_shard_index e w = i then {w} else {})"
    unfolding nth by (auto simp add: keys_add_count)
  have ks: "fst ` set (x # steps) = insert w (fst ` set steps)"
    by (simp add: x)
  have "fst ` set (fold (merge_entry e) (x # steps) t ! i) =
        fst ` set (merge_entry e x t ! i) \<union> {v \<in> fst ` set steps. get_shard_index e v = i}"
    using Cons.IH [OF len Cons.prems(2)] by simp
  also have "\<dots> = (fst ` set (t ! i) \<union> (if get_shard_index e w = i then {w} else {}))
        \<union> {v \<in> fst ` set steps. get_shard_index e v = i}"
    by (simp only: one)
  also have "\<dots> = fst ` set (t ! i) \<union> {v \<in> fst ` set (x # steps). get_shard_index e v = i}"
    unfolding ks by (rule shard_keys_insert)
  finally show ?case .
qed

lemma count_of_no_key: "w \<notin> fst ` set m \<Longrightarrow> count_of m w = 0"
  by (simp add: count_of_def map_of_eq_None_iff [THEN iffD2])

lemma count_of_entry: "distinct (map fst m) \<Longrightarrow> (w, c) \<in> set m \<Longrightarrow> count_of m w = c"
  by (simp add: count_of_def)

lemma entry_iff_count:
  "distinct (map fst m) \<Longrightarrow> (w, c) \<in> set m \<longleftrightarrow> w \<in> fst ` set m \<and> count_of m w = c"
  by (auto simp: count_of_entry rev_image_eqI)

lemma sum_list_single:
  fixes f :: "'a \<Rightarrow> 64 word"
  assumes "i < length xs" and "\<And>j. j < length xs \<Longrightarrow> j \<noteq> i \<Longrightarrow> f (xs ! j) = 0"
  shows "sum_list (map f xs) = f (xs ! i)"
  using assms
proof (induction xs arbitrary: i)
  case Nil
  then show ?case by simp
next
  case (Cons x xs)
  show ?case
  proof (cases i)
    case 0
    have "f y = 0" if "y \<in> set xs" for y
    proof -
      from that obtain j where "j < length xs" "xs ! j = y" by (auto simp: in_set_conv_nth)
      with Cons.prems(2) [of "Suc j"] 0 show ?thesis by simp
    qed
    then have "sum_list (map f xs) = 0"
      by (simp add: sum_list_eq_0_iff [THEN iffD2] cong: map_cong)
    with 0 show ?thesis by simp
  next
    case (Suc k)
    have "f x = 0" using Cons.prems(2) [of 0] Suc by simp
    moreover have "sum_list (map f xs) = f (xs ! k)"
    proof (rule Cons.IH)
      show "k < length xs" using Cons.prems(1) Suc by simp
      show "f (xs ! j) = 0" if "j < length xs" "j \<noteq> k" for j
        using Cons.prems(2) [of "Suc j"] that Suc by simp
    qed
    ultimately show ?thesis using Suc by simp
  qed
qed

lemma table_total_shard:
  assumes "table_inv e t"
  shows "table_total t w = count_of (t ! get_shard_index e w) w"
  unfolding table_total_def
proof (rule sum_list_single)
  show "get_shard_index e w < length t"
    using assms get_shard_index_less [of e w] by (simp add: table_inv_def)
  fix j assume j: "j < length t" "j \<noteq> get_shard_index e w"
  with assms have "w \<notin> fst ` set (t ! j)"
    by (auto simp: table_inv_def)
  then show "count_of (t ! j) w = 0" by (rule count_of_no_key)
qed

lemma table_inv_length: "table_inv e t \<Longrightarrow> length t = NUM_SHARDS"
  by (simp add: table_inv_def)

lemma table_inv_shard_distinct: "table_inv e t \<Longrightarrow> i < NUM_SHARDS \<Longrightarrow> distinct (map fst (t ! i))"
  by (simp add: table_inv_def)

lemma table_inv_shard_key:
  "table_inv e t \<Longrightarrow> i < NUM_SHARDS \<Longrightarrow> w \<in> fst ` set (t ! i) \<Longrightarrow> get_shard_index e w = i"
  unfolding table_inv_def by blast

lemma in_concat_nth: "x \<in> set (concat xs) \<longleftrightarrow> (\<exists>i < length xs. x \<in> set (xs ! i))"
proof
  assume "x \<in> set (concat xs)"
  then obtain ys where "ys \<in> set xs" "x \<in> set ys" by auto
  then show "\<exists>i < length xs. x \<in> set (xs ! i)" by (metis in_set_conv_nth)
next
  assume "\<exists>i < length xs. x \<in> set (xs ! i)"
  then show "x \<in> set (concat xs)" by (auto intro: nth_mem)
qed

lemma distinct_concat_indexed:
  assumes "\<And>i. i < length ks \<Longrightarrow> distinct (ks ! i)"
    and "\<And>i w. i < length ks \<Longrightarrow> w \<in> set (ks ! i) \<Longrightarrow> h w = off + i"
  shows "distinct (concat ks)"
  using assms
proof (induction ks arbitrary: off)
  case Nil
  show ?case by simp
next
  case (Cons k ks)
  have dk: "distinct k" using Cons.prems(1) [of 0] by simp
  have hk: "h w = off" if "w \<in> set k" for w
    using Cons.prems(2) [of 0 w] that by simp
  have rest: "distinct (concat ks)"
  proof (rule Cons.IH [of "Suc off"])
    show "distinct (ks ! i)" if "i < length ks" for i
      using Cons.prems(1) [of "Suc i"] that by simp
    show "h w = Suc off + i" if "i < length ks" "w \<in> set (ks ! i)" for i w
      using Cons.prems(2) [of "Suc i" w] that by simp
  qed
  have disj: "w \<notin> set (concat ks)" if "w \<in> set k" for w
  proof
    assume "w \<in> set (concat ks)"
    then obtain i where i: "i < length ks" "w \<in> set (ks ! i)"
      unfolding in_concat_nth by blast
    from Cons.prems(2) [of "Suc i" w] i have "h w = off + Suc i" by simp
    with hk [OF that] show False by simp
  qed
  from dk rest disj show ?case by auto
qed

lemma table_inv_distinct:
  assumes "table_inv e t"
  shows "distinct (map fst (concat t))"
proof -
  have "distinct (concat (map (map fst) t))"
  proof (rule distinct_concat_indexed [where h = "get_shard_index e" and off = 0])
    fix i assume "i < length (map (map fst) t)"
    then have i: "i < NUM_SHARDS" by (simp add: table_inv_length [OF assms])
    then show "distinct (map (map fst) t ! i)"
      using table_inv_shard_distinct [OF assms i] by (simp add: table_inv_length [OF assms])
  next
    fix i w assume "i < length (map (map fst) t)" and w: "w \<in> set (map (map fst) t ! i)"
    then have i: "i < NUM_SHARDS" by (simp add: table_inv_length [OF assms])
    from w i have "w \<in> fst ` set (t ! i)" by (simp add: table_inv_length [OF assms])
    then show "get_shard_index e w = 0 + i"
      using table_inv_shard_key [OF assms i] by simp
  qed
  then show ?thesis by (simp add: map_concat)
qed

lemma table_entry:
  assumes "table_inv e t" and "(w, c) \<in> set (concat t)"
  shows "table_total t w = c"
proof -
  from assms(2) obtain i where i: "i < length t" "(w, c) \<in> set (t ! i)"
    unfolding in_concat_nth by blast
  from i(1) have i': "i < NUM_SHARDS" by (simp add: table_inv_length [OF assms(1)])
  have d: "distinct (map fst (t ! i))"
    using assms(1) i' by (rule table_inv_shard_distinct)
  have "w \<in> fst ` set (t ! i)" using i(2) by force
  then have s: "get_shard_index e w = i"
    using table_inv_shard_key [OF assms(1) i'] by simp
  from d i(2) have "count_of (t ! i) w = c" by (rule count_of_entry)
  with s show ?thesis by (simp add: table_total_shard [OF assms(1)])
qed

lemma table_keys:
  assumes "length t = NUM_SHARDS"
  shows "fst ` set (concat (fold (merge_entry e) steps t)) = fst ` set (concat t) \<union> fst ` set steps"
proof -
  let ?T = "fold (merge_entry e) steps t"
  have len: "length ?T = NUM_SHARDS"
    using assms by (induction steps arbitrary: t) (simp_all add: length_merge_entry)
  have u: "fst ` set (concat x) = (\<Union>i < length x. fst ` set (x ! i))" for x :: table
  proof (rule set_eqI)
    fix w
    have "w \<in> fst ` set (concat x) \<longleftrightarrow> (\<exists>c. (w, c) \<in> set (concat x))"
      by force
    also have "\<dots> \<longleftrightarrow> (\<exists>c. \<exists>i < length x. (w, c) \<in> set (x ! i))"
      by (simp only: in_concat_nth)
    also have "\<dots> \<longleftrightarrow> (\<exists>i < length x. w \<in> fst ` set (x ! i))"
      by force
    finally have f: "w \<in> fst ` set (concat x) \<longleftrightarrow> (\<exists>i < length x. w \<in> fst ` set (x ! i))" .
    show "w \<in> fst ` set (concat x) \<longleftrightarrow> w \<in> (\<Union>i < length x. fst ` set (x ! i))"
      unfolding f by blast
  qed
  have "fst ` set (concat ?T) = (\<Union>i < NUM_SHARDS. fst ` set (?T ! i))"
    by (simp only: u len)
  also have "\<dots> = (\<Union>i < NUM_SHARDS. fst ` set (t ! i) \<union> {w \<in> fst ` set steps. get_shard_index e w = i})"
    using shard_keys_fold [OF assms] by simp
  also have "\<dots> = (\<Union>i < NUM_SHARDS. fst ` set (t ! i)) \<union> fst ` set steps"
    using get_shard_index_less [of e] by blast
  also have "\<dots> = fst ` set (concat t) \<union> fst ` set steps"
    by (simp only: u assms)
  finally show ?thesis .
qed

subsection \<open>Ranking\<close>

lemma comes_before_irrefl: "\<not> comes_before a a"
  by (simp add: comes_before_def)

lemma comes_before_trans: "comes_before a b \<Longrightarrow> comes_before b c \<Longrightarrow> comes_before a c"
  by (auto simp: comes_before_def split: if_splits)

lemma comes_before_total: "a \<noteq> b \<Longrightarrow> comes_before a b \<or> comes_before b a"
  by (cases a, cases b) (auto simp: comes_before_def)

lemma comes_before_asym: "comes_before a b \<Longrightarrow> \<not> comes_before b a"
  using comes_before_trans [of a b a] comes_before_irrefl [of a] by blast

lemma mset_insert_by: "mset (insert_by lt x ys) = add_mset x (mset ys)"
  by (induction ys) simp_all

lemma mset_partial_sort: "mset (partial_sort n lt xs) = mset xs"
  by (induction xs) (simp_all add: partial_sort_def mset_insert_by)

lemma length_partial_sort: "length (partial_sort n lt xs) = length xs"
  using mset_partial_sort [of n lt xs] by (rule mset_eq_length)

lemma set_insert_by: "set (insert_by lt x ys) = insert x (set ys)"
  using mset_insert_by [of lt x ys] by (metis set_mset_add_mset_insert set_mset_mset)

lemma sorted_insert_by:
  "sorted_wrt (\<lambda>a b. \<not> comes_before b a) ys \<Longrightarrow>
   sorted_wrt (\<lambda>a b. \<not> comes_before b a) (insert_by comes_before x ys)"
proof (induction ys)
  case Nil
  show ?case by simp
next
  case (Cons y ys)
  show ?case
  proof (cases "comes_before x y")
    case True
    have "\<not> comes_before z x" if "z \<in> set (y # ys)" for z
    proof
      assume zx: "comes_before z x"
      then have zy: "comes_before z y" using True by (rule comes_before_trans)
      show False
      proof (cases "z = y")
        case True
        with zy show False by (simp add: comes_before_irrefl)
      next
        case False
        with that Cons.prems zy show False by auto
      qed
    qed
    with True Cons.prems show ?thesis by simp
  next
    case False
    with Cons show ?thesis by (auto simp: set_insert_by)
  qed
qed

lemma sorted_partial_sort:
  "sorted_wrt (\<lambda>a b. \<not> comes_before b a) (partial_sort n comes_before xs)"
  by (induction xs) (simp_all add: partial_sort_def sorted_insert_by)

lemma sorted_unique:
  assumes "sorted_wrt (\<lambda>a b. \<not> comes_before b a) xs"
    and "sorted_wrt (\<lambda>a b. \<not> comes_before b a) ys"
    and "mset xs = mset ys"
  shows "xs = ys"
  using assms
proof (induction xs arbitrary: ys)
  case Nil
  then show ?case by simp
next
  case (Cons x xs)
  from Cons.prems(3) obtain y ys' where ys: "ys = y # ys'"
    by (cases ys) auto
  have xy: "x = y"
  proof (rule ccontr)
    assume ne: "x \<noteq> y"
    have "x \<in> set ys" using Cons.prems(3) by (metis list.set_intros(1) mset_eq_setD)
    with ne ys have "x \<in> set ys'" by simp
    with Cons.prems(2) ys have 1: "\<not> comes_before x y" by simp
    have "y \<in> set (x # xs)" using Cons.prems(3) ys by (metis list.set_intros(1) mset_eq_setD)
    with ne have "y \<in> set xs" by simp
    with Cons.prems(1) have 2: "\<not> comes_before y x" by simp
    from comes_before_total [OF ne] 1 2 show False by blast
  qed
  have "xs = ys'"
  proof (rule Cons.IH)
    show "sorted_wrt (\<lambda>a b. \<not> comes_before b a) xs" using Cons.prems(1) by simp
    show "sorted_wrt (\<lambda>a b. \<not> comes_before b a) ys'" using Cons.prems(2) ys by simp
    show "mset xs = mset ys'" using Cons.prems(3) ys xy by simp
  qed
  with xy ys show ?case by simp
qed

lemma partial_sort_permutation:
  "mset xs = mset ys \<Longrightarrow> partial_sort n comes_before xs = partial_sort k comes_before ys"
  by (rule sorted_unique) (simp_all add: sorted_partial_sort mset_partial_sort)

lemma rank_words_permutation:
  assumes "mset xs = mset ys"
  shows "rank_words m xs = rank_words m ys"
proof -
  have len: "length xs = length ys" using assms by (rule mset_eq_length)
  have "partial_sort (min (unat (to_size_t m)) (length ys)) comes_before xs =
        partial_sort (min (unat (to_size_t m)) (length ys)) comes_before ys"
    using assms by (rule partial_sort_permutation)
  then show ?thesis
    by (simp add: rank_words_def Let_def len)
qed

lemma sorted_strict:
  "sorted_wrt (\<lambda>a b. \<not> comes_before b a) xs \<Longrightarrow> distinct xs \<Longrightarrow> sorted_wrt comes_before xs"
proof (induction xs)
  case Nil
  show ?case by simp
next
  case (Cons x xs)
  have "comes_before x z" if "z \<in> set xs" for z
  proof -
    from that Cons.prems have "x \<noteq> z" "\<not> comes_before z x" by auto
    with comes_before_total [of x z] show ?thesis by blast
  qed
  with Cons show ?case by simp
qed

lemma length_rank_words:
  "length (rank_words m xs) = min (unat (to_size_t m)) (length xs)"
  by (simp add: rank_words_def Let_def length_partial_sort)

lemma rank_words_sorted:
  assumes "distinct xs"
  shows "sorted_wrt comes_before (rank_words m xs)"
proof -
  have "distinct (partial_sort (min (unat (to_size_t m)) (length xs)) comes_before xs)"
    using assms mset_partial_sort by (metis mset_eq_imp_distinct_iff)
  then have "sorted_wrt comes_before (partial_sort (min (unat (to_size_t m)) (length xs)) comes_before xs)"
    using sorted_partial_sort by (rule sorted_strict [rotated])
  then show ?thesis
    by (simp add: rank_words_def Let_def sorted_wrt_take)
qed

lemma rank_words_subset: "set (rank_words m xs) \<subseteq> set xs"
proof -
  have "set (partial_sort (min (unat (to_size_t m)) (length xs)) comes_before xs) = set xs"
    using mset_partial_sort by (metis set_mset_mset)
  then show ?thesis
    using set_take_subset by (fastforce simp: rank_words_def Let_def)
qed

lemma rank_words_all:
  assumes "length xs \<le> unat (to_size_t m)"
  shows "mset (rank_words m xs) = mset xs"
  using assms by (simp add: rank_words_def Let_def min_def length_partial_sort mset_partial_sort)

lemma partial_sort_is_result:
  "partial_sort_result n comes_before xs (partial_sort n comes_before xs)"
proof -
  let ?ys = "partial_sort n comes_before xs"
  have s: "sorted_wrt (\<lambda>a b. \<not> comes_before b a) (take n ?ys @ drop n ?ys)"
    using sorted_partial_sort [of n xs] by simp
  then have "sorted_wrt (\<lambda>a b. \<not> comes_before b a) (take n ?ys)"
    and "\<forall>a \<in> set (take n ?ys). \<forall>b \<in> set (drop n ?ys). \<not> comes_before b a"
    unfolding sorted_wrt_append by blast+
  then show ?thesis
    by (simp add: partial_sort_result_def mset_partial_sort list_all_iff)
qed

lemma partial_sort_result_unique:
  assumes "partial_sort_result n comes_before xs ys"
  shows "take n ys = take n (partial_sort n comes_before xs)"
proof -
  let ?le = "\<lambda>a b. \<not> comes_before b a"
  let ?zs = "take n ys @ partial_sort n comes_before (drop n ys)"
  from assms have m: "mset ys = mset xs"
    and s: "sorted_wrt ?le (take n ys)"
    and c: "\<forall>b \<in> set (drop n ys). \<forall>a \<in> set (take n ys). \<not> comes_before b a"
    by (simp_all add: partial_sort_result_def list_all_iff)
  have set_tail: "set (partial_sort n comes_before (drop n ys)) = set (drop n ys)"
    using mset_partial_sort [of n comes_before "drop n ys"] by (metis set_mset_mset)
  have sz: "sorted_wrt ?le ?zs"
    unfolding sorted_wrt_append set_tail
    using s c sorted_partial_sort [of n "drop n ys"] by blast
  have ms: "mset ?zs = mset (partial_sort n comes_before xs)"
  proof -
    have "mset ?zs = mset (take n ys) + mset (drop n ys)"
      by (simp add: mset_partial_sort)
    also have "\<dots> = mset (take n ys @ drop n ys)" by (simp only: mset_append)
    also have "\<dots> = mset xs" using m by simp
    finally show ?thesis by (simp add: mset_partial_sort)
  qed
  have eq: "?zs = partial_sort n comes_before xs"
    using sz sorted_partial_sort [of n xs] ms by (rule sorted_unique)
  have "take n ?zs = take n ys"
    by (cases "n \<le> length ys") (simp_all add: partial_sort_def)
  with eq show ?thesis by simp
qed

subsection \<open>Partitions of the files, orders of the merge steps, and the whole run\<close>

lemma steps_total_mset:
  assumes "mset xs = mset ys"
  shows "steps_total xs w = steps_total ys w"
proof -
  have "steps_total zs w = sum_mset (image_mset snd (filter_mset (\<lambda>x. fst x = w) (mset zs)))"
    for zs :: "(string \<times> 64 word) list"
    unfolding steps_total_def by (simp only: sum_mset_sum_list [symmetric] mset_map mset_filter)
  then show ?thesis using assms by simp
qed

lemma steps_total_append:
  "steps_total (xs @ ys) w = steps_total xs w + steps_total ys w"
  by (simp add: steps_total_def)

lemma steps_total_concat:
  "steps_total (concat xss) w = sum_list (map (\<lambda>xs. steps_total xs w) xss)"
  by (induction xss) (simp_all add: steps_total_append, simp add: steps_total_def)

lemma steps_total_counts:
  "distinct (map fst m) \<Longrightarrow> steps_total m w = count_of m w"
proof (induction m)
  case Nil
  show ?case by (simp add: steps_total_def count_of_def)
next
  case (Cons kv m)
  obtain k v where kv: "kv = (k, v)" by (cases kv)
  from Cons.prems have d: "distinct (map fst m)" and k: "k \<notin> fst ` set m"
    by (simp_all add: kv)
  show ?case
  proof (cases "w = k")
    case True
    have "steps_total m k = 0"
      using Cons.IH [OF d] count_of_no_key [OF k] True by simp
    then show ?thesis using True by (simp add: kv steps_total_Cons count_of_def)
  next
    case False
    then show ?thesis using Cons.IH [OF d] by (simp add: kv steps_total_Cons count_of_def)
  qed
qed

lemma all_tokens_mset:
  assumes "mset ps = mset qs"
  shows "mset (all_tokens e mlen ps) = mset (all_tokens e mlen qs)"
proof -
  have "mset (all_tokens e mlen zs) = sum_mset (image_mset (\<lambda>p. mset (file_tokens e mlen p)) (mset zs))"
    for zs
    unfolding all_tokens_def
    by (simp only: mset_concat map_map comp_def sum_mset_sum_list [symmetric] mset_map)
  then show ?thesis using assms by simp
qed

lemma all_tokens_concat:
  "all_tokens e mlen (concat shares) = concat (map (all_tokens e mlen) shares)"
  by (induction shares) (simp_all add: all_tokens_append, simp add: all_tokens_def)

lemma count_list_concat:
  "count_list (concat xss) w = sum_list (map (\<lambda>xs. count_list xs w) xss)"
  by (induction xss) simp_all

lemma shares_total:
  assumes "mset (concat shares) = mset paths"
  shows "sum_list (map (\<lambda>s. count_of (count_files e mlen s []) w) shares) =
         of_nat (count_list (all_tokens e mlen paths) w)"
proof -
  have "sum_list (map (\<lambda>s. count_of (count_files e mlen s []) w) shares) =
        sum_list (map (\<lambda>s. (of_nat (count_list (all_tokens e mlen s) w) :: 64 word)) shares)"
    by (simp only: count_of_count_files)
  also have "\<dots> = of_nat (sum_list (map (\<lambda>s. count_list (all_tokens e mlen s) w) shares))"
    by (induction shares) simp_all
  also have "\<dots> = of_nat (count_list (all_tokens e mlen (concat shares)) w)"
    by (simp add: all_tokens_concat count_list_concat comp_def)
  also have "\<dots> = of_nat (count (mset (all_tokens e mlen (concat shares))) w)"
    by (simp only: count_mset)
  also have "\<dots> = of_nat (count (mset (all_tokens e mlen paths)) w)"
    by (simp only: all_tokens_mset [OF assms])
  also have "\<dots> = of_nat (count_list (all_tokens e mlen paths) w)"
    by (simp only: count_mset)
  finally show ?thesis .
qed

lemma shares_keys:
  "fst ` set (concat (map (\<lambda>s. count_files e mlen s []) shares)) =
   set (all_tokens e mlen (concat shares))"
proof (induction shares)
  case Nil
  show ?case by (simp add: all_tokens_def)
next
  case (Cons s shares)
  have "fst ` set (concat (map (\<lambda>s. count_files e mlen s []) (s # shares))) =
        fst ` set (count_files e mlen s []) \<union>
        fst ` set (concat (map (\<lambda>s. count_files e mlen s []) shares))"
    by (simp add: image_Un)
  also have "\<dots> = set (all_tokens e mlen s) \<union> set (all_tokens e mlen (concat shares))"
    by (simp only: keys_count_files Cons.IH)
  also have "\<dots> = set (all_tokens e mlen (concat (s # shares)))"
    by (simp add: all_tokens_append)
  finally show ?case .
qed

lemma length_empty_table: "length empty_table = NUM_SHARDS"
  by (simp add: empty_table_def)

lemma concat_empty_table: "concat empty_table = []"
  by (simp add: empty_table_def)

lemma empty_table_count: "count_of (empty_table ! get_shard_index e w) w = 0"
  using get_shard_index_less [of e w] by (simp add: empty_table_def count_of_def)

lemma merged_total:
  "table_total (fold (merge_entry e) steps empty_table) w = steps_total steps w"
proof -
  have "table_inv e (fold (merge_entry e) steps empty_table)"
    using table_inv_empty by (rule table_inv_fold)
  then show ?thesis
    by (simp add: table_total_shard shard_count_fold [OF length_empty_table] empty_table_count)
qed

lemma merged_keys:
  "fst ` set (concat (fold (merge_entry e) steps empty_table)) = fst ` set steps"
  by (simp only: table_keys [OF length_empty_table] concat_empty_table) simp

lemma entries_by_count:
  assumes "distinct (map fst xs)" and "distinct (map fst ys)"
    and "fst ` set xs = fst ` set ys"
    and "\<And>w. w \<in> fst ` set xs \<Longrightarrow> count_of xs w = count_of ys w"
  shows "mset xs = mset ys"
proof -
  have "set xs = set ys"
  proof (rule set_eqI)
    fix x :: "string \<times> 64 word"
    obtain w c where x: "x = (w, c)" by (cases x)
    have k: "w \<in> fst ` set xs \<longleftrightarrow> w \<in> fst ` set ys"
      by (simp only: assms(3))
    have "w \<in> fst ` set xs \<and> count_of xs w = c \<longleftrightarrow> w \<in> fst ` set ys \<and> count_of ys w = c"
    proof (cases "w \<in> fst ` set xs")
      case True
      with k assms(4) [OF True] show ?thesis by simp
    next
      case False
      with k show ?thesis by simp
    qed
    then show "x \<in> set xs \<longleftrightarrow> x \<in> set ys"
      unfolding x entry_iff_count [OF assms(1)] entry_iff_count [OF assms(2)] .
  qed
  moreover have "distinct xs" "distinct ys"
    using assms(1,2) by (simp_all add: distinct_map)
  ultimately show ?thesis by (simp add: set_eq_iff_mset_eq_distinct)
qed

lemma table_count_of:
  assumes "table_inv e t"
  shows "w \<in> fst ` set (concat t) \<Longrightarrow> count_of (concat t) w = table_total t w"
proof -
  assume "w \<in> fst ` set (concat t)"
  then obtain c where c: "(w, c) \<in> set (concat t)" by force
  have "count_of (concat t) w = c"
    using table_inv_distinct [OF assms] c by (rule count_of_entry)
  with table_entry [OF assms c] show ?thesis by simp
qed

lemma merged_entries:
  assumes "mset (concat shares) = mset paths"
    and "mset steps = mset (concat (map (\<lambda>s. count_files e mlen s []) shares))"
  shows "mset (concat (fold (merge_entry e) steps empty_table)) =
         mset (count_files e mlen paths [])"
proof (rule entries_by_count)
  let ?T = "fold (merge_entry e) steps empty_table"
  let ?own = "concat (map (\<lambda>s. count_files e mlen s []) shares)"
  have inv: "table_inv e ?T"
    using table_inv_empty by (rule table_inv_fold)
  show "distinct (map fst (concat ?T))"
    using inv by (rule table_inv_distinct)
  show "distinct (map fst (count_files e mlen paths []))"
    by (rule distinct_count_files)
  have "fst ` set steps = fst ` set ?own"
    using assms(2) by (metis mset_eq_setD)
  also have "\<dots> = set (all_tokens e mlen (concat shares))"
    by (rule shares_keys)
  also have "\<dots> = set (all_tokens e mlen paths)"
    using all_tokens_mset [OF assms(1)] by (rule mset_eq_setD)
  finally have keys: "fst ` set steps = set (all_tokens e mlen paths)" .
  show "fst ` set (concat ?T) = fst ` set (count_files e mlen paths [])"
    by (simp only: merged_keys keys keys_count_files)
  fix w assume "w \<in> fst ` set (concat ?T)"
  then have "count_of (concat ?T) w = table_total ?T w"
    using inv by (rule table_count_of [rotated])
  also have "\<dots> = steps_total steps w"
    by (rule merged_total)
  also have "\<dots> = steps_total ?own w"
    using assms(2) by (rule steps_total_mset)
  also have "\<dots> = sum_list (map (\<lambda>s. count_of (count_files e mlen s []) w) shares)"
    by (simp add: steps_total_concat comp_def steps_total_counts [OF distinct_count_files])
  also have "\<dots> = of_nat (count_list (all_tokens e mlen paths) w)"
    using assms(1) by (rule shares_total)
  also have "\<dots> = count_of (count_files e mlen paths []) w"
    by (simp only: count_of_count_files)
  finally show "count_of (concat ?T) w = count_of (count_files e mlen paths []) w" .
qed

lemma filter_classes:
  "mset (concat (map (\<lambda>i. filter (\<lambda>x. f x = i) xs) [0..<n])) = mset (filter (\<lambda>x. f x < n) xs)"
proof (induction n)
  case 0
  show ?case by simp
next
  case (Suc n)
  have "mset (filter (\<lambda>x. f x < n) xs) + mset (filter (\<lambda>x. f x = n) xs) =
        mset (filter (\<lambda>x. f x < Suc n) xs)"
    by (induction xs) (auto simp: less_Suc_eq)
  with Suc show ?case by simp
qed

lemma worker_shares_partition:
  assumes "0 < n"
  shows "mset (concat (map (\<lambda>i. worker_share e n i paths) [0..<n])) = mset paths"
proof -
  let ?f = "\<lambda>x :: nat \<times> string. pop_owner e (fst x) mod n"
  have eq: "worker_share e n i paths = map snd (filter (\<lambda>x. ?f x = i) (enumerate 0 paths))" for i
    by (simp add: worker_share_def case_prod_unfold)
  have "concat (map (\<lambda>i. worker_share e n i paths) [0..<n]) =
        map snd (concat (map (\<lambda>i. filter (\<lambda>x. ?f x = i) (enumerate 0 paths)) [0..<n]))"
    by (simp add: eq map_concat comp_def)
  then have "mset (concat (map (\<lambda>i. worker_share e n i paths) [0..<n])) =
        image_mset snd (mset (filter (\<lambda>x. ?f x < n) (enumerate 0 paths)))"
    by (simp only: mset_map filter_classes)
  also have "\<dots> = image_mset snd (mset (enumerate 0 paths))"
    using assms by simp
  also have "\<dots> = mset paths"
    by (simp only: mset_map [symmetric] map_snd_enumerate)
  finally show ?thesis .
qed

lemma q_fold_push: "q (fold push ps s) = q s @ ps"
  by (induction ps arbitrary: s) (simp_all add: push_def)

lemma count_files_permutation:
  assumes "mset ps = mset qs"
  shows "mset (count_files e mlen ps []) = mset (count_files e mlen qs [])"
proof (rule entries_by_count)
  show "distinct (map fst (count_files e mlen ps []))" by (rule distinct_count_files)
  show "distinct (map fst (count_files e mlen qs []))" by (rule distinct_count_files)
  show "fst ` set (count_files e mlen ps []) = fst ` set (count_files e mlen qs [])"
    unfolding keys_count_files using all_tokens_mset [OF assms] by (rule mset_eq_setD)
  fix w
  have "count_list (all_tokens e mlen ps) w = count_list (all_tokens e mlen qs) w"
    using all_tokens_mset [OF assms, of e mlen] by (metis count_mset)
  then show "count_of (count_files e mlen ps []) w = count_of (count_files e mlen qs []) w"
    by (simp only: count_of_count_files)
qed

lemma run_ranked:
  assumes "mset (concat shares) = mset paths"
    and "mset steps = mset (concat (map (\<lambda>s. count_files e mlen s []) shares))"
    and "mset sorted_words = mset (concat (fold (merge_entry e) steps empty_table))"
  shows "rank_words m sorted_words = rank_words m (count_files e mlen paths [])"
proof (rule rank_words_permutation)
  show "mset sorted_words = mset (count_files e mlen paths [])"
    using assms(3) merged_entries [OF assms(1,2)] by simp
qed

lemma threads_positive: "1 \<le>s (n :: 32 word) \<Longrightarrow> 0 < nat (sint n)"
  by (simp add: word_sle_eq)

lemma main_accepted:
  assumes "parse_args e argv = Inr (Some config, perr)"
  shows "main e argv =
     Exited \<lparr>exit_code = 0,
       stdout = rank_words (top_m config)
                  (count_files e (min_len config) (fst (regular_files e (dir_path config))) []),
       stderr = perr @ (if snd (regular_files e (dir_path config)) then [Filesystem_error] else [])
                  @ concat (map (open_failures e)
                      (map (\<lambda>i. worker_share e (nat (sint (threads config))) i
                                  (fst (regular_files e (dir_path config))))
                         [0..<nat (sint (threads config))])),
       workers_started = nat (sint (threads config))\<rparr>"
proof -
  let ?n = "nat (sint (threads config))"
  let ?paths = "fst (regular_files e (dir_path config))"
  let ?shares = "map (\<lambda>i. worker_share e ?n i ?paths) [0..<?n]"
  let ?steps = "concat (map (\<lambda>s. count_files e (min_len config) s []) ?shares)"
  have n: "0 < ?n"
    using parse_args_accepts [OF assms] by (blast intro: threads_positive)
  have part: "mset (concat ?shares) = mset ?paths"
    using n by (rule worker_shares_partition)
  have ranked: "rank_words (top_m config) (concat (fold (merge_entry e) ?steps empty_table)) =
        rank_words (top_m config) (count_files e (min_len config) ?paths [])"
    using part by (rule run_ranked) simp_all
  have queue: "q (set_done (fold push ?paths \<lparr>q = [], producer_done = False\<rparr>)) = ?paths"
    by (simp add: set_done_def q_fold_push)
  show ?thesis
    unfolding main_def assms
    using ranked by (simp add: Let_def queue run_workers_result)
qed

subsection \<open>The claims on merging, failures and order\<close>

lemma partition_total:
  assumes "mset (concat shares) = mset paths"
    and "mset steps = mset (concat (map (\<lambda>s. count_files e mlen s []) shares))"
  shows "steps_total steps w = count_of (count_files e mlen paths []) w"
proof -
  have "steps_total steps w = steps_total (concat (map (\<lambda>s. count_files e mlen s []) shares)) w"
    using assms(2) by (rule steps_total_mset)
  also have "\<dots> = sum_list (map (\<lambda>s. count_of (count_files e mlen s []) w) shares)"
    by (simp add: steps_total_concat comp_def steps_total_counts [OF distinct_count_files])
  also have "\<dots> = of_nat (count_list (all_tokens e mlen paths) w)"
    using assms(1) by (rule shares_total)
  also have "\<dots> = count_of (count_files e mlen paths []) w"
    by (simp only: count_of_count_files)
  finally show ?thesis .
qed

lemma merged_other_shards:
  assumes "i < NUM_SHARDS" and "i \<noteq> get_shard_index e w"
  shows "w \<notin> fst ` set (fold (merge_entry e) steps empty_table ! i)"
proof
  assume "w \<in> fst ` set (fold (merge_entry e) steps empty_table ! i)"
  moreover have "table_inv e (fold (merge_entry e) steps empty_table)"
    using table_inv_empty by (rule table_inv_fold)
  ultimately have "get_shard_index e w = i"
    using assms(1) by (rule table_inv_shard_key [rotated 2])
  with assms(2) show False by simp
qed

lemma count_files_same_files:
  assumes "read_lines e' = read_lines e"
  shows "count_files e' mlen paths m = count_files e mlen paths m"
proof -
  have "count_file e' mlen = count_file e mlen"
    by (rule ext, rule ext) (simp add: count_file_def assms)
  then show ?thesis by (simp add: count_files_def)
qed

lemma runs_agree:
  assumes "parse_args e argv = Inr (Some config, perr)"
    and "parse_args e' argv' = Inr (Some config', perr')"
    and "read_lines e' = read_lines e"
    and "mset (fst (regular_files e' (dir_path config'))) = mset (fst (regular_files e (dir_path config)))"
    and "top_m config' = top_m config" and "min_len config' = min_len config"
  shows "\<exists>r r'. main e argv = Exited r \<and> main e' argv' = Exited r' \<and> stdout r' = stdout r"
proof -
  have "mset (count_files e (min_len config) (fst (regular_files e' (dir_path config'))) []) =
        mset (count_files e (min_len config) (fst (regular_files e (dir_path config))) [])"
    using assms(4) by (rule count_files_permutation)
  then have "rank_words (top_m config)
          (count_files e (min_len config) (fst (regular_files e' (dir_path config'))) []) =
        rank_words (top_m config)
          (count_files e (min_len config) (fst (regular_files e (dir_path config))) [])"
    by (rule rank_words_permutation)
  then show ?thesis
    unfolding main_accepted [OF assms(1)] main_accepted [OF assms(2)]
    by (simp add: assms(5,6) count_files_same_files [OF assms(3)])
qed

text \<open>
  Claim C5. Take the files of a run in any partition among any number of workers
  (\<open>shares\<close>; \<open>count_files e mlen s []\<close> is the private tally with which a worker that
  popped the paths \<open>s\<close> leaves its loop, and \<open>run_workers\<close> merges these tallies into the
  table: the first two parts of the theorem), and let the merge steps
  \<^verbatim>\<open>global_counts[shard][word] += count\<close> of all workers happen in any order
  (\<open>steps\<close>: every interleaving of the workers and every iteration order of their maps is
  such an order). Then the total that the shards hold for a word is the count that one
  worker processing all files obtains, and it is the total of the table that this one
  worker's merge builds; the word has an entry in the shard of its hash only; and the
  ranked result, from any iteration order of the shards (\<open>sorted_words\<close>), is the one
  ranked from the single worker's tally. Two runs of the program on the same files, with
  the same \<^verbatim>\<open>--top\<close> and \<^verbatim>\<open>--minlen\<close>, write the same result whatever their numbers
  of threads, their schedulings, their hash functions and the orders of their traversals.
\<close>

theorem merge_commutativity:
  assumes "mset (concat shares) = mset paths"
    and "mset steps = mset (concat (map (\<lambda>s. count_files e mlen s []) shares))"
    and "mset sorted_words = mset (concat (fold (merge_entry e) steps empty_table))"
  shows "consumer_loop e mlen \<lparr>q = paths, producer_done = True\<rparr> [] [] [] =
           Some (\<lparr>q = [], producer_done = True\<rparr>, count_files e mlen paths [],
                 open_failures e paths)
       \<and> map_option fst (run_workers e mlen shares empty_table []) =
           Some (fold (merge_entry e)
                   (concat (map (\<lambda>s. count_files e mlen s []) shares)) empty_table)
       \<and> table_total (fold (merge_entry e) steps empty_table) w =
           count_of (count_files e mlen paths []) w
       \<and> table_total (fold (merge_entry e) steps empty_table) w =
           table_total (fold (merge_entry e) (count_files e mlen paths []) empty_table) w
       \<and> (\<forall>i < NUM_SHARDS. i \<noteq> get_shard_index e w \<longrightarrow>
             w \<notin> fst ` set (fold (merge_entry e) steps empty_table ! i))
       \<and> rank_words m sorted_words = rank_words m (count_files e mlen paths [])
       \<and> (parse_args e argv = Inr (Some config, perr) \<and>
          parse_args e' argv' = Inr (Some config', perr') \<and>
          read_lines e' = read_lines e \<and>
          mset (fst (regular_files e' (dir_path config'))) =
            mset (fst (regular_files e (dir_path config))) \<and>
          top_m config' = top_m config \<and> min_len config' = min_len config \<longrightarrow>
            (\<exists>r r'. main e argv = Exited r \<and> main e' argv' = Exited r' \<and> stdout r' = stdout r))"
proof -
  have a: "table_total (fold (merge_entry e) steps empty_table) w =
           count_of (count_files e mlen paths []) w"
    using partition_total [OF assms(1,2)] by (simp only: merged_total)
  have b: "table_total (fold (merge_entry e) (count_files e mlen paths []) empty_table) w =
           count_of (count_files e mlen paths []) w"
    by (simp only: merged_total steps_total_counts [OF distinct_count_files])
  have c: "\<forall>i < NUM_SHARDS. i \<noteq> get_shard_index e w \<longrightarrow>
             w \<notin> fst ` set (fold (merge_entry e) steps empty_table ! i)"
    using merged_other_shards by blast
  have d: "rank_words m sorted_words = rank_words m (count_files e mlen paths [])"
    using assms by (rule run_ranked)
  have l: "consumer_loop e mlen \<lparr>q = paths, producer_done = True\<rparr> [] [] [] =
           Some (\<lparr>q = [], producer_done = True\<rparr>, count_files e mlen paths [],
                 open_failures e paths)"
    using consumer_loop_closed [of "\<lparr>q = paths, producer_done = True\<rparr>" paths e mlen "[]" "[]" "[]"]
    by simp
  have r: "map_option fst (run_workers e mlen shares empty_table []) =
           Some (fold (merge_entry e)
                   (concat (map (\<lambda>s. count_files e mlen s []) shares)) empty_table)"
    by (simp add: run_workers_result)
  have f: "parse_args e argv = Inr (Some config, perr) \<and>
          parse_args e' argv' = Inr (Some config', perr') \<and>
          read_lines e' = read_lines e \<and>
          mset (fst (regular_files e' (dir_path config'))) =
            mset (fst (regular_files e (dir_path config))) \<and>
          top_m config' = top_m config \<and> min_len config' = min_len config \<longrightarrow>
            (\<exists>r r'. main e argv = Exited r \<and> main e' argv' = Exited r' \<and> stdout r' = stdout r)"
    using runs_agree by blast
  have ab: "table_total (fold (merge_entry e) steps empty_table) w =
           table_total (fold (merge_entry e) (count_files e mlen paths []) empty_table) w"
    using a b by simp
  show ?thesis
    using l r a ab c d f by (intro conjI)
qed

theorem merge_commutativity_witness:
  "mset (concat [[''dir/B''], [''dir/A'']]) = mset [''dir/A'', ''dir/B'']
   \<and> table_total
        (fold (merge_entry (scenario_env length_hash id [''dir/A'', ''dir/B'']))
           (rev (concat (map (\<lambda>s. count_files (scenario_env length_hash id [''dir/A'', ''dir/B'']) 1 s [])
                           [[''dir/B''], [''dir/A'']])))
           empty_table) ''foo''
       = count_of (count_files (scenario_env length_hash id [''dir/A'', ''dir/B'']) 1 [''dir/A'', ''dir/B''] []) ''foo''
   \<and> count_of (count_files (scenario_env length_hash id [''dir/A'', ''dir/B'']) 1 [''dir/A'', ''dir/B''] []) ''foo'' = 3
   \<and> 0 < NUM_SHARDS \<and> 0 \<noteq> get_shard_index (scenario_env length_hash id [''dir/A'', ''dir/B'']) ''foo''
   \<and> ''foo'' \<notin> fst ` set
        (fold (merge_entry (scenario_env length_hash id [''dir/A'', ''dir/B'']))
           (rev (concat (map (\<lambda>s. count_files (scenario_env length_hash id [''dir/A'', ''dir/B'']) 1 s [])
                           [[''dir/B''], [''dir/A'']])))
           empty_table ! 0)
   \<and> rank_words 2
        (rev (concat (fold (merge_entry (scenario_env length_hash id [''dir/A'', ''dir/B'']))
           (rev (concat (map (\<lambda>s. count_files (scenario_env length_hash id [''dir/A'', ''dir/B'']) 1 s [])
                           [[''dir/B''], [''dir/A'']])))
           empty_table)))
       = [(''foo'', 3), (''bar'', 2)]
   \<and> parse_args (scenario_env length_hash id [''dir/A'', ''dir/B'']) [''counter'', ''--top'', ''2'', ''dir'']
       = Inr (Some \<lparr>threads = 1, top_m = 2, min_len = 1, dir_path = ''dir''\<rparr>, [])
   \<and> parse_args (scenario_env (\<lambda>w. 0) Suc [''dir/B'', ''dir/A''])
         [''counter'', ''--threads'', ''3'', ''--top'', ''2'', ''dir'']
       = Inr (Some \<lparr>threads = 3, top_m = 2, min_len = 1, dir_path = ''dir''\<rparr>, [])
   \<and> main (scenario_env length_hash id [''dir/A'', ''dir/B'']) [''counter'', ''--top'', ''2'', ''dir'']
       = Exited \<lparr>exit_code = 0, stdout = [(''foo'', 3), (''bar'', 2)], stderr = [],
                 workers_started = 1\<rparr>
   \<and> main (scenario_env (\<lambda>w. 0) Suc [''dir/B'', ''dir/A''])
         [''counter'', ''--threads'', ''3'', ''--top'', ''2'', ''dir'']
       = Exited \<lparr>exit_code = 0, stdout = [(''foo'', 3), (''bar'', 2)], stderr = [],
                 workers_started = 3\<rparr>"
proof -
  let ?e = "scenario_env length_hash id [''dir/A'', ''dir/B'']"
  let ?e' = "scenario_env (\<lambda>w. 0) Suc [''dir/B'', ''dir/A'']"
  let ?argv = "[''counter'', ''--top'', ''2'', ''dir'']"
  let ?argv' = "[''counter'', ''--threads'', ''3'', ''--top'', ''2'', ''dir'']"
  let ?c = "\<lparr>threads = 1, top_m = 2, min_len = 1, dir_path = ''dir''\<rparr>"
  let ?c' = "\<lparr>threads = 3, top_m = 2, min_len = 1, dir_path = ''dir''\<rparr>"
  have p1: "parse_args ?e ?argv = Inr (Some ?c, [])" by code_simp
  have p2: "parse_args ?e' ?argv' = Inr (Some ?c', [])" by code_simp
  have m1: "main ?e ?argv = Exited \<lparr>exit_code = 0, stdout = [(''foo'', 3), (''bar'', 2)],
      stderr = [], workers_started = 1\<rparr>" by code_simp
  have m2: "main ?e' ?argv' = Exited \<lparr>exit_code = 0, stdout = [(''foo'', 3), (''bar'', 2)],
      stderr = [], workers_started = 3\<rparr>" by code_simp
  have same: "read_lines ?e' = read_lines ?e \<and>
      mset (fst (regular_files ?e' (dir_path ?c'))) = mset (fst (regular_files ?e (dir_path ?c))) \<and>
      top_m ?c' = top_m ?c \<and> min_len ?c' = min_len ?c"
    by (simp add: scenario_env_def)
  let ?steps = "rev (concat (map (\<lambda>s. count_files ?e 1 s []) [[''dir/B''], [''dir/A'']]))"
  let ?sorted_words = "rev (concat (fold (merge_entry ?e) ?steps empty_table))"
  have h1: "mset (concat [[''dir/B''], [''dir/A'']]) = mset [''dir/A'', ''dir/B'']"
    by simp
  have h2: "mset ?steps = mset (concat (map (\<lambda>s. count_files ?e 1 s []) [[''dir/B''], [''dir/A'']]))"
    by (simp only: mset_rev)
  have h3: "mset ?sorted_words = mset (concat (fold (merge_entry ?e) ?steps empty_table))"
    by (simp only: mset_rev)
  have v1: "count_of (count_files ?e 1 [''dir/A'', ''dir/B''] []) ''foo'' = 3"
    by code_simp
  have v2: "rank_words 2 (count_files ?e 1 [''dir/A'', ''dir/B''] []) = [(''foo'', 3), (''bar'', 2)]"
    by code_simp
  have v3: "0 < NUM_SHARDS \<and> 0 \<noteq> get_shard_index ?e ''foo''"
    by code_simp
  from h1 v1 v2 v3 p1 p2 m1 m2 same
    merge_commutativity [OF h1 h2 h3, where w = "''foo''" and m = 2 and argv = ?argv
      and config = ?c and perr = "[]" and e' = ?e' and argv' = ?argv' and config' = ?c'
      and perr' = "[]"]
  show ?thesis by simp
qed

lemma main_never_blocks: "main e argv \<noteq> Blocked"
proof (cases "parse_args e argv")
  case (Inl x)
  then show ?thesis by (simp add: main_def)
next
  case (Inr p)
  obtain cf perr where p: "p = (cf, perr)" by (cases p)
  show ?thesis
  proof (cases cf)
    case None
    with Inr p show ?thesis by (simp add: main_def)
  next
    case (Some config)
    with Inr p have "parse_args e argv = Inr (Some config, perr)" by simp
    from main_accepted [OF this] show ?thesis by simp
  qed
qed

lemma open_failures_mem:
  "p \<in> set paths \<Longrightarrow> \<not> readable e p \<Longrightarrow> Failed_to_open_file p \<in> set (open_failures e paths)"
  by (simp add: open_failures_def)

text \<open>
  Claim C7. A worker whose pops deliver \<open>paths\<close> and then the end of input returns
  (it neither blocks nor aborts), has written one \<^verbatim>\<open>Failed to open file\<close> line for
  each path that did not open and none else, and has merged the counts of the readable
  files alone. A run whose configuration is accepted exits with code 0, writes that
  diagnostic for every unreadable path of the traversal, and ranks the counts computed
  from the readable files alone. No run is left with a worker blocked.
\<close>

theorem skip_and_continue:
  "consumer e \<lparr>q = paths, producer_done = True\<rparr> mlen t =
     Some (\<lparr>q = [], producer_done = True\<rparr>,
           fold (merge_entry e) (count_files e mlen (filter (readable e) paths) []) t,
           map Failed_to_open_file (filter (\<lambda>p. \<not> readable e p) paths))
   \<and> (parse_args e argv = Inr (Some config, perr) \<longrightarrow>
        (\<exists>r. main e argv = Exited r \<and> exit_code r = 0 \<and>
             stdout r = rank_words (top_m config)
               (count_files e (min_len config)
                  (filter (readable e) (fst (regular_files e (dir_path config)))) []) \<and>
             (\<forall>p \<in> set (fst (regular_files e (dir_path config))).
                \<not> readable e p \<longrightarrow> Failed_to_open_file p \<in> set (stderr r))))
   \<and> main e argv \<noteq> Blocked"
proof -
  have a: "consumer e \<lparr>q = paths, producer_done = True\<rparr> mlen t =
     Some (\<lparr>q = [], producer_done = True\<rparr>,
           fold (merge_entry e) (count_files e mlen (filter (readable e) paths) []) t,
           map Failed_to_open_file (filter (\<lambda>p. \<not> readable e p) paths))"
    by (simp only: consumer_closed count_files_skip open_failures_def)
  have b: "\<exists>r. main e argv = Exited r \<and> exit_code r = 0 \<and>
             stdout r = rank_words (top_m config)
               (count_files e (min_len config)
                  (filter (readable e) (fst (regular_files e (dir_path config)))) []) \<and>
             (\<forall>p \<in> set (fst (regular_files e (dir_path config))).
                \<not> readable e p \<longrightarrow> Failed_to_open_file p \<in> set (stderr r))"
    if acc: "parse_args e argv = Inr (Some config, perr)"
  proof -
    let ?n = "nat (sint (threads config))"
    let ?paths = "fst (regular_files e (dir_path config))"
    let ?shares = "map (\<lambda>i. worker_share e ?n i ?paths) [0..<?n]"
    have n: "0 < ?n"
      using parse_args_accepts [OF acc] by (blast intro: threads_positive)
    have part: "mset (concat ?shares) = mset ?paths"
      using n by (rule worker_shares_partition)
    have fails: "Failed_to_open_file p \<in> set (concat (map (open_failures e) ?shares))"
      if p: "p \<in> set ?paths" and u: "\<not> readable e p" for p
    proof -
      from p part have "p \<in> set (concat ?shares)" by (metis mset_eq_setD)
      then obtain s where s: "s \<in> set ?shares" "p \<in> set s" by auto
      from open_failures_mem [OF s(2) u] s(1) show ?thesis by auto
    qed
    show ?thesis
      unfolding main_accepted [OF acc] using fails by (simp add: count_files_skip)
  qed
  from a b main_never_blocks [of e argv] show ?thesis by blast
qed

theorem skip_and_continue_witness:
  "parse_args (scenario_env length_hash id [''dir/A'', ''dir/X'', ''dir/B'']) [''counter'', ''--top'', ''2'', ''dir'']
     = Inr (Some \<lparr>threads = 1, top_m = 2, min_len = 1, dir_path = ''dir''\<rparr>, [])
   \<and> main (scenario_env length_hash id [''dir/A'', ''dir/X'', ''dir/B'']) [''counter'', ''--top'', ''2'', ''dir'']
     = Exited \<lparr>exit_code = 0, stdout = [(''foo'', 3), (''bar'', 2)],
               stderr = [Failed_to_open_file ''dir/X''], workers_started = 1\<rparr>
   \<and> ''dir/X'' \<in> set (fst (regular_files (scenario_env length_hash id [''dir/A'', ''dir/X'', ''dir/B'']) ''dir''))
   \<and> \<not> readable (scenario_env length_hash id [''dir/A'', ''dir/X'', ''dir/B'']) ''dir/X''
   \<and> rank_words 2 (count_files (scenario_env length_hash id [''dir/A'', ''dir/X'', ''dir/B'']) 1
         (filter (readable (scenario_env length_hash id [''dir/A'', ''dir/X'', ''dir/B'']))
            [''dir/A'', ''dir/X'', ''dir/B'']) [])
       = [(''foo'', 3), (''bar'', 2)]"
proof -
  let ?e = "scenario_env length_hash id [''dir/A'', ''dir/X'', ''dir/B'']"
  let ?argv = "[''counter'', ''--top'', ''2'', ''dir'']"
  have acc: "parse_args ?e ?argv = Inr (Some \<lparr>threads = 1, top_m = 2, min_len = 1, dir_path = ''dir''\<rparr>, [])"
    by code_simp
  have run: "main ?e ?argv = Exited \<lparr>exit_code = 0, stdout = [(''foo'', 3), (''bar'', 2)],
               stderr = [Failed_to_open_file ''dir/X''], workers_started = 1\<rparr>"
    by code_simp
  have x: "''dir/X'' \<in> set (fst (regular_files ?e ''dir'')) \<and> \<not> readable ?e ''dir/X''"
    by code_simp
  have fl: "filter (readable ?e) [''dir/A'', ''dir/X'', ''dir/B''] = [''dir/A'', ''dir/B'']"
    by code_simp
  have rf: "fst (regular_files ?e ''dir'') = [''dir/A'', ''dir/X'', ''dir/B'']"
    by (simp add: scenario_env_def)
  from acc run x
    skip_and_continue [of ?e "[]" 1 "[]" ?argv "\<lparr>threads = 1, top_m = 2, min_len = 1, dir_path = ''dir''\<rparr>" "[]"]
  show ?thesis by (simp add: rf)
qed

lemma comes_before_order:
  "comes_before a b \<Longrightarrow> snd b \<le> snd a \<and> (snd a = snd b \<longrightarrow> fst a < fst b)"
  by (auto simp: comes_before_def split: if_splits)

lemma rank_words_order:
  assumes "distinct (map fst xs)" and "i < j" and "j < length (rank_words m xs)"
  shows "snd (rank_words m xs ! j) \<le> snd (rank_words m xs ! i) \<and>
         (snd (rank_words m xs ! i) = snd (rank_words m xs ! j) \<longrightarrow>
            fst (rank_words m xs ! i) < fst (rank_words m xs ! j))"
proof -
  have "distinct xs" using assms(1) by (simp add: distinct_map)
  then have "sorted_wrt comes_before (rank_words m xs)" by (rule rank_words_sorted)
  then have "comes_before (rank_words m xs ! i) (rank_words m xs ! j)"
    using assms(2,3) by (rule sorted_wrt_nth_less)
  then show ?thesis by (rule comes_before_order)
qed

lemma main_stdout_cases:
  assumes "main e argv = Exited r"
  shows "stdout r = [] \<or> (\<exists>m mlen paths. stdout r = rank_words m (count_files e mlen paths []))"
proof (cases "parse_args e argv")
  case (Inl x)
  with assms show ?thesis by (simp add: main_def)
next
  case (Inr p)
  obtain c perr where p: "p = (c, perr)" by (cases p)
  show ?thesis
  proof (cases c)
    case None
    with assms Inr p show ?thesis by (auto simp: main_def)
  next
    case (Some config)
    with Inr p have "parse_args e argv = Inr (Some config, perr)" by simp
    from main_accepted [OF this] assms show ?thesis by auto
  qed
qed

text \<open>
  Claim C3. In the sequence a run writes to \<^verbatim>\<open>std::cout\<close>, and in the ranking of any
  vector of entries with distinct words, an entry that comes earlier has a count at least
  as large as one that comes later, and of two entries with equal counts the earlier has
  the lexicographically smaller word.
\<close>

theorem ranked_order:
  "(main e argv = Exited r \<and> i < j \<and> j < length (stdout r) \<longrightarrow>
      snd (stdout r ! j) \<le> snd (stdout r ! i) \<and>
      (snd (stdout r ! i) = snd (stdout r ! j) \<longrightarrow> fst (stdout r ! i) < fst (stdout r ! j)))
   \<and> (distinct (map fst sorted_words) \<and> i < j \<and> j < length (rank_words m sorted_words) \<longrightarrow>
      snd (rank_words m sorted_words ! j) \<le> snd (rank_words m sorted_words ! i) \<and>
      (snd (rank_words m sorted_words ! i) = snd (rank_words m sorted_words ! j) \<longrightarrow>
         fst (rank_words m sorted_words ! i) < fst (rank_words m sorted_words ! j)))"
proof -
  have a: "snd (stdout r ! j) \<le> snd (stdout r ! i) \<and>
      (snd (stdout r ! i) = snd (stdout r ! j) \<longrightarrow> fst (stdout r ! i) < fst (stdout r ! j))"
    if run: "main e argv = Exited r" and ij: "i < j" "j < length (stdout r)"
  proof -
    from main_stdout_cases [OF run] ij(2)
    obtain m' mlen paths where out: "stdout r = rank_words m' (count_files e mlen paths [])"
      by auto
    show ?thesis
      unfolding out
      by (rule rank_words_order [OF distinct_count_files ij(1)]) (use ij(2) out in simp)
  qed
  have b: "snd (rank_words m sorted_words ! j) \<le> snd (rank_words m sorted_words ! i) \<and>
      (snd (rank_words m sorted_words ! i) = snd (rank_words m sorted_words ! j) \<longrightarrow>
         fst (rank_words m sorted_words ! i) < fst (rank_words m sorted_words ! j))"
    if "distinct (map fst sorted_words)" "i < j" "j < length (rank_words m sorted_words)"
    using that by (rule rank_words_order)
  from a b show ?thesis by blast
qed

theorem ranked_order_witness:
  "main (scenario_env length_hash id [''dir/A'', ''dir/B'']) [''counter'', ''--minlen'', ''2'', ''dir'']
     = Exited \<lparr>exit_code = 0, stdout = [(''foo'', 3), (''bar'', 2), (''baz'', 1)], stderr = [],
               workers_started = 1\<rparr>
   \<and> distinct (map fst [(''zed'', 5 :: 64 word), (''abc'', 7), (''ab'', 5), (''b'', 5)])
   \<and> rank_words 3 [(''zed'', 5), (''abc'', 7), (''ab'', 5), (''b'', 5)]
     = [(''abc'', 7), (''ab'', 5), (''b'', 5)]
   \<and> (1 :: nat) < 2 \<and> 2 < length (rank_words 3 [(''zed'', 5), (''abc'', 7), (''ab'', 5), (''b'', 5)])
   \<and> snd (rank_words 3 [(''zed'', 5), (''abc'', 7), (''ab'', 5), (''b'', 5)] ! 2)
      \<le> snd (rank_words 3 [(''zed'', 5), (''abc'', 7), (''ab'', 5), (''b'', 5)] ! 1)
   \<and> fst (rank_words 3 [(''zed'', 5), (''abc'', 7), (''ab'', 5), (''b'', 5)] ! 1)
      < fst (rank_words 3 [(''zed'', 5), (''abc'', 7), (''ab'', 5), (''b'', 5)] ! 2)"
proof -
  let ?e = "scenario_env length_hash id [''dir/A'', ''dir/B'']"
  let ?argv = "[''counter'', ''--minlen'', ''2'', ''dir'']"
  let ?r = "\<lparr>exit_code = 0, stdout = [(''foo'', 3), (''bar'', 2), (''baz'', 1)], stderr = [],
               workers_started = 1\<rparr>"
  let ?ws = "[(''zed'', 5 :: 64 word), (''abc'', 7), (''ab'', 5), (''b'', 5)]"
  have run: "main ?e ?argv = Exited ?r"
    by code_simp
  have rk: "rank_words 3 ?ws = [(''abc'', 7), (''ab'', 5), (''b'', 5)]"
    by code_simp
  have d: "distinct (map fst ?ws)"
    by simp
  from run rk d ranked_order [of ?e ?argv ?r 1 2 ?ws 3]
  show ?thesis by simp
qed

subsection \<open>The claims on the size of the result and on the concrete scenario\<close>

lemma merged_distinct:
  "distinct (map fst (concat (fold (merge_entry e) steps empty_table)))"
  by (rule table_inv_distinct) (rule table_inv_fold [OF table_inv_empty])

lemma merged_size:
  "length (concat (fold (merge_entry e) steps empty_table)) =
   card (fst ` set (concat (fold (merge_entry e) steps empty_table)))"
proof -
  let ?es = "concat (fold (merge_entry e) steps empty_table)"
  have "card (set (map fst ?es)) = length (map fst ?es)"
    using merged_distinct by (rule distinct_card)
  then show ?thesis by simp
qed

text \<open>
  Claim C4. For every state of the table that merge steps reach from the empty table,
  every iteration order of its shards (\<open>sorted_words\<close>) and every \<^verbatim>\<open>top_m\<close> of at
  least 1, the ranked result has \<open>min top_m d\<close> entries, where \<open>d\<close> is the number of
  distinct words of the table, which are the words merged. When \<open>d\<close> is less than
  \<^verbatim>\<open>top_m\<close> the result holds every entry of the table, in sorted order.
\<close>

theorem top_m_bounded:
  assumes "1 \<le>s m"
    and "mset sorted_words = mset (concat (fold (merge_entry e) steps empty_table))"
  shows "length (rank_words m sorted_words) =
           min (nat (sint m)) (card (fst ` set (concat (fold (merge_entry e) steps empty_table))))
       \<and> fst ` set (concat (fold (merge_entry e) steps empty_table)) = fst ` set steps
       \<and> (card (fst ` set (concat (fold (merge_entry e) steps empty_table))) < nat (sint m) \<longrightarrow>
            mset (rank_words m sorted_words) = mset (concat (fold (merge_entry e) steps empty_table)) \<and>
            sorted_wrt comes_before (rank_words m sorted_words))"
proof -
  let ?es = "concat (fold (merge_entry e) steps empty_table)"
  have len: "length sorted_words = card (fst ` set ?es)"
    using mset_eq_length [OF assms(2)] by (simp only: merged_size)
  have a: "length (rank_words m sorted_words) = min (nat (sint m)) (card (fst ` set ?es))"
    by (simp only: length_rank_words to_size_t_pos [OF assms(1)] len)
  have b: "fst ` set ?es = fst ` set steps"
    by (rule merged_keys)
  have d: "distinct sorted_words"
  proof -
    have "distinct ?es" using merged_distinct [of e steps] by (simp add: distinct_map)
    then show ?thesis using assms(2) by (metis mset_eq_imp_distinct_iff)
  qed
  have c: "mset (rank_words m sorted_words) = mset ?es \<and>
           sorted_wrt comes_before (rank_words m sorted_words)"
    if "card (fst ` set ?es) < nat (sint m)"
  proof -
    have "length sorted_words \<le> unat (to_size_t m)"
      using that by (simp only: len to_size_t_pos [OF assms(1)])
    then have "mset (rank_words m sorted_words) = mset sorted_words"
      by (rule rank_words_all)
    with assms(2) rank_words_sorted [OF d] show ?thesis by simp
  qed
  from a b c show ?thesis by blast
qed

theorem top_m_bounded_witness:
  "(1 :: 32 word) \<le>s 2
   \<and> mset (rev (concat (fold (merge_entry (scenario_env length_hash id []))
           [(''foo'', 1), (''quux'', 4), (''foo'', 2), (''a'', 1)] empty_table)))
     = mset (concat (fold (merge_entry (scenario_env length_hash id []))
           [(''foo'', 1), (''quux'', 4), (''foo'', 2), (''a'', 1)] empty_table))
   \<and> length (rank_words 2
        (rev (concat (fold (merge_entry (scenario_env length_hash id []))
           [(''foo'', 1), (''quux'', 4), (''foo'', 2), (''a'', 1)] empty_table))))
     = min (nat (sint (2 :: 32 word)))
        (card (fst ` set (concat (fold (merge_entry (scenario_env length_hash id []))
           [(''foo'', 1), (''quux'', 4), (''foo'', 2), (''a'', 1)] empty_table))))
   \<and> card (fst ` set (concat (fold (merge_entry (scenario_env length_hash id []))
           [(''foo'', 1), (''quux'', 4), (''foo'', 2), (''a'', 1)] empty_table))) = 3
   \<and> rank_words 2
        (rev (concat (fold (merge_entry (scenario_env length_hash id []))
           [(''foo'', 1), (''quux'', 4), (''foo'', 2), (''a'', 1)] empty_table)))
      = [(''quux'', 4), (''foo'', 3)]
   \<and> (1 :: 32 word) \<le>s 5
   \<and> card (fst ` set (concat (fold (merge_entry (scenario_env length_hash id []))
           [(''foo'', 1), (''quux'', 4), (''foo'', 2), (''a'', 1)] empty_table)))
       < nat (sint (5 :: 32 word))
   \<and> mset (rank_words 5
        (rev (concat (fold (merge_entry (scenario_env length_hash id []))
           [(''foo'', 1), (''quux'', 4), (''foo'', 2), (''a'', 1)] empty_table))))
     = mset (concat (fold (merge_entry (scenario_env length_hash id []))
           [(''foo'', 1), (''quux'', 4), (''foo'', 2), (''a'', 1)] empty_table))
   \<and> rank_words 5
        (rev (concat (fold (merge_entry (scenario_env length_hash id []))
           [(''foo'', 1), (''quux'', 4), (''foo'', 2), (''a'', 1)] empty_table)))
      = [(''quux'', 4), (''foo'', 3), (''a'', 1)]"
proof -
  let ?e = "scenario_env length_hash id []"
  let ?steps = "[(''foo'', 1 :: 64 word), (''quux'', 4), (''foo'', 2), (''a'', 1)]"
  let ?T = "fold (merge_entry ?e) ?steps empty_table"
  have h2: "(1 :: 32 word) \<le>s 2" by (simp add: word_sle_eq)
  have p: "mset (rev (concat ?T)) = mset (concat ?T)" by (simp only: mset_rev)
  have len: "length (rank_words 2 (rev (concat ?T))) =
      min (nat (sint (2 :: 32 word))) (card (fst ` set (concat ?T)))"
    using top_m_bounded [OF h2 p] by (rule conjunct1)
  have flat: "concat ?T = [(''a'', 1), (''foo'', 3), (''quux'', 4)]"
    by code_simp
  have card: "card (fst ` set (concat ?T)) = 3"
    unfolding flat by simp
  have rk: "rank_words 2 (rev (concat ?T)) = [(''quux'', 4), (''foo'', 3)]"
    by code_simp
  have h5: "(1 :: 32 word) \<le>s 5" by (simp add: word_sle_eq)
  have less: "card (fst ` set (concat ?T)) < nat (sint (5 :: 32 word))"
    unfolding card by simp
  have all: "mset (rank_words 5 (rev (concat ?T))) = mset (concat ?T)"
    using top_m_bounded [OF h5 p] less by blast
  have rk5: "rank_words 5 (rev (concat ?T)) = [(''quux'', 4), (''foo'', 3), (''a'', 1)]"
    by code_simp
  show ?thesis
    using h2 p len card rk h5 less all rk5 by (intro conjI)
qed

lemma open_failures_none:
  "(\<And>p. p \<in> set paths \<Longrightarrow> readable e p) \<Longrightarrow> open_failures e paths = []"
  by (simp add: open_failures_def)

lemma worker_share_subset: "set (worker_share e n i paths) \<subseteq> set paths"
proof -
  have "set (worker_share e n i paths) \<subseteq> set (map snd (enumerate 0 paths))"
    unfolding worker_share_def set_map by (rule image_mono) (rule filter_is_subset)
  then show ?thesis by (simp only: map_snd_enumerate)
qed

lemma shares_open_failures_none:
  assumes "\<And>p. p \<in> set paths \<Longrightarrow> readable e p"
  shows "concat (map (open_failures e) (map (\<lambda>i. worker_share e n i paths) [0..<n])) = []"
proof -
  have "open_failures e (worker_share e n i paths) = []" for i
    by (rule open_failures_none) (use assms worker_share_subset in blast)
  then show ?thesis by simp
qed

lemma scenario_counts:
  "count_files (scenario_env h s listing) mlen paths m =
   count_files (scenario_env length_hash id []) mlen paths m"
proof -
  have "count_file (scenario_env h s listing) mlen = count_file (scenario_env length_hash id []) mlen"
    by (rule ext, rule ext) (simp add: count_file_def scenario_env_def)
  then show ?thesis by (simp add: count_files_def)
qed

lemma scenario_ranked:
  assumes "mset listing = {#''dir/A'', ''dir/B''#}"
  shows "rank_words 2 (count_files (scenario_env h s listing') 1 listing []) =
         [(''foo'', 3), (''bar'', 2)]"
proof -
  have "mset listing = mset [''dir/A'', ''dir/B'']" using assms by simp
  then have "mset (count_files (scenario_env length_hash id []) 1 listing []) =
             mset (count_files (scenario_env length_hash id []) 1 [''dir/A'', ''dir/B''] [])"
    by (rule count_files_permutation)
  then have "rank_words 2 (count_files (scenario_env length_hash id []) 1 listing []) =
             rank_words 2 (count_files (scenario_env length_hash id []) 1 [''dir/A'', ''dir/B''] [])"
    by (rule rank_words_permutation)
  also have "\<dots> = [(''foo'', 3), (''bar'', 2)]"
    by code_simp
  finally show ?thesis by (simp only: scenario_counts [of h s listing'])
qed

lemma scenario_parse_args:
  assumes "stoi t = Inr n" and "1 \<le>s n"
  shows "parse_args (scenario_env h s listing)
           [''counter'', ''--threads'', t, ''--top'', ''2'', ''--minlen'', ''1'', ''dir''] =
         Inr (Some \<lparr>threads = n, top_m = 2, min_len = 1, dir_path = ''dir''\<rparr>, [])"
proof -
  have two: "stoi ''2'' = Inr 2" by code_simp
  have one: "stoi ''1'' = Inr 1" by code_simp
  have ok: "\<not> n <s 1" "\<not> (2 :: 32 word) <s 1" "\<not> (1 :: 32 word) <s 1"
    using assms(2) by (simp_all add: sless_iff_not_sle word_sle_eq)
  show ?thesis
    by (simp add: parse_args_def assms(1) two one ok scenario_env_def)
qed

text \<open>
  Claim C1. With exactly the two files of the scenario, in whichever order the traversal
  yields them, with any number (at least 1) of worker threads, any scheduling of the
  pops and any hash function, the run with \<^verbatim>\<open>--top 2 --minlen 1\<close> exits with code 0
  after writing \<^verbatim>\<open>foo 3\<close> and then \<^verbatim>\<open>bar 2\<close>, and no diagnostic.
\<close>

theorem concrete_scenario:
  assumes "mset listing = {#''dir/A'', ''dir/B''#}"
    and "stoi t = Inr n" and "1 \<le>s n"
  shows "main (scenario_env h s listing)
           [''counter'', ''--threads'', t, ''--top'', ''2'', ''--minlen'', ''1'', ''dir''] =
         Exited \<lparr>exit_code = 0, stdout = [(''foo'', 3), (''bar'', 2)], stderr = [],
                 workers_started = nat (sint n)\<rparr>"
proof -
  let ?e = "scenario_env h s listing"
  have files: "regular_files ?e ''dir'' = (listing, False)"
    by (simp add: scenario_env_def)
  have "set listing = {''dir/A'', ''dir/B''}"
    using assms(1) by (metis mset_eq_setD mset.simps set_mset_mset list.simps(15) empty_set)
  then have rd: "readable ?e p" if "p \<in> set listing" for p
    using that by (auto simp: readable_def scenario_env_def)
  have quiet: "concat (map (open_failures ?e)
      (map (\<lambda>i. worker_share ?e (nat (sint n)) i listing) [0..<nat (sint n)])) = []"
    using rd by (rule shares_open_failures_none)
  show ?thesis
    unfolding main_accepted [OF scenario_parse_args [OF assms(2,3)]]
    using quiet by (simp add: files scenario_ranked [OF assms(1)])
qed

theorem concrete_scenario_witness:
  "mset [''dir/B'', ''dir/A''] = {#''dir/A'', ''dir/B''#}
   \<and> stoi ''3'' = Inr 3 \<and> (1 :: 32 word) \<le>s 3
   \<and> main (scenario_env length_hash Suc [''dir/B'', ''dir/A''])
        [''counter'', ''--threads'', ''3'', ''--top'', ''2'', ''--minlen'', ''1'', ''dir''] =
      Exited \<lparr>exit_code = 0, stdout = [(''foo'', 3), (''bar'', 2)], stderr = [],
              workers_started = 3\<rparr>"
proof -
  have h1: "mset [''dir/B'', ''dir/A''] = {#''dir/A'', ''dir/B''#}" by simp
  have h2: "stoi ''3'' = Inr 3" by code_simp
  have h3: "(1 :: 32 word) \<le>s 3" by (simp add: word_sle_eq)
  have n: "nat (sint (3 :: 32 word)) = 3" by simp
  have run: "main (scenario_env length_hash Suc [''dir/B'', ''dir/A''])
        [''counter'', ''--threads'', ''3'', ''--top'', ''2'', ''--minlen'', ''1'', ''dir''] =
      Exited \<lparr>exit_code = 0, stdout = [(''foo'', 3), (''bar'', 2)], stderr = [],
              workers_started = 3\<rparr>"
    by code_simp
  from concrete_scenario [OF h1 h2 h3, of length_hash Suc] h1 h2 h3 run
  show ?thesis by (simp only: n simp_thms)
qed

subsection \<open>Well-formed entries\<close>

lemma tolower_lower_word_char: "is_word_char c \<Longrightarrow> lower_word_char (tolower c)"
proof (cases "isupper c")
  case True
  then have r: "65 \<le> (of_char c :: nat)" "(of_char c :: nat) \<le> 90"
    by (simp_all add: isupper_def)
  then have "(of_char (char_of ((of_char c :: nat) + 32)) :: nat) = of_char c + 32"
    by (simp add: of_char_of)
  with r True show ?thesis
    by (simp add: lower_word_char_def is_word_char_def isalnum_def islower_def isupper_def tolower_def)
next
  case False
  assume "is_word_char c"
  with False show ?thesis by (simp add: lower_word_char_def tolower_def)
qed

lemma parse_chars_pending:
  "list_all lower_word_char cur \<Longrightarrow> list_all lower_word_char (fst (parse_chars cs mlen cur m))"
  by (induction cs arbitrary: cur m) (simp_all add: tolower_lower_word_char)

lemma emitted_tokens:
  "list_all lower_word_char cur \<Longrightarrow> t \<in> set (emitted cs mlen cur) \<Longrightarrow>
   unat (to_size_t mlen) \<le> length t \<and> list_all lower_word_char t"
proof (induction cs arbitrary: cur)
  case Nil
  then show ?case by simp
next
  case (Cons c cs)
  show ?case
  proof (cases "is_word_char c")
    case True
    have "list_all lower_word_char (cur @ [tolower c])"
      using Cons.prems(1) True by (simp add: tolower_lower_word_char)
    moreover have "t \<in> set (emitted cs mlen (cur @ [tolower c]))"
      using Cons.prems(2) True by simp
    ultimately show ?thesis by (rule Cons.IH)
  next
    case False
    then have "t \<in> set (if unat (to_size_t mlen) \<le> length cur then [cur] else []) \<or>
               t \<in> set (emitted cs mlen [])"
      using Cons.prems(2) by simp
    then show ?thesis
    proof
      assume "t \<in> set (if unat (to_size_t mlen) \<le> length cur then [cur] else [])"
      then have "t = cur" "unat (to_size_t mlen) \<le> length cur"
        by (simp_all split: if_splits)
      with Cons.prems(1) show ?thesis by simp
    next
      assume "t \<in> set (emitted cs mlen [])"
      with Cons.IH [of "[]"] show ?thesis by simp
    qed
  qed
qed

lemma line_tokens_shape:
  assumes "t \<in> set (line_tokens mlen line)"
  shows "unat (to_size_t mlen) \<le> length t \<and> list_all lower_word_char t"
proof (cases "t \<in> set (emitted line mlen [])")
  case True
  then show ?thesis using emitted_tokens [of "[]" t line mlen] by simp
next
  case False
  with assms have "t = fst (parse_chars line mlen [] [])" "unat (to_size_t mlen) \<le> length t"
    by (auto simp: line_tokens_def Let_def split: if_splits)
  then show ?thesis using parse_chars_pending [of "[]" line mlen "[]"] by simp
qed

lemma all_tokens_shape:
  assumes "t \<in> set (all_tokens e mlen paths)"
  shows "unat (to_size_t mlen) \<le> length t \<and> list_all lower_word_char t"
proof -
  from assms obtain p where "t \<in> set (file_tokens e mlen p)"
    by (auto simp: all_tokens_def)
  then obtain line where "t \<in> set (line_tokens mlen line)"
    by (auto simp: file_tokens_def split: option.splits)
  then show ?thesis by (rule line_tokens_shape)
qed

lemma all_tokens_well_formed:
  assumes "1 \<le>s mlen" and "t \<in> set (all_tokens e mlen paths)"
  shows "well_formed_word mlen t"
proof -
  have n: "unat (to_size_t mlen) = nat (sint mlen)" using assms(1) by (rule to_size_t_pos)
  have "0 < nat (sint mlen)" using assms(1) by (rule threads_positive)
  with all_tokens_shape [OF assms(2)] show ?thesis
    by (auto simp: well_formed_word_def n)
qed

lemma count_list_pos: "x \<in> set xs \<Longrightarrow> 0 < count_list xs x"
  by (induction xs) auto

lemma of_nat_64_nonzero:
  assumes "0 < k" and "k < 2 ^ 64"
  shows "1 \<le> (of_nat k :: 64 word)"
proof -
  have "unat (of_nat k :: 64 word) = k mod 2 ^ 64"
    by (simp only: unat_of_nat len_of_numeral_defs) simp
  then have "unat (of_nat k :: 64 word) = k"
    using assms(2) by simp
  then have "0 < unat (of_nat k :: 64 word)" using assms(1) by simp
  then have "unat (1 :: 64 word) \<le> unat (of_nat k :: 64 word)" by simp
  then show ?thesis by (simp only: word_le_nat_alt)
qed

lemma tally_entry:
  assumes "1 \<le>s mlen" and "(w, c) \<in> set (count_files e mlen paths [])"
  shows "well_formed_word mlen w \<and>
         c = of_nat (count_list (all_tokens e mlen paths) w) \<and>
         0 < count_list (all_tokens e mlen paths) w \<and>
         (count_list (all_tokens e mlen paths) w < 2 ^ 64 \<longrightarrow> 1 \<le> c)"
proof -
  have "w \<in> fst ` set (count_files e mlen paths [])" using assms(2) by force
  then have mem: "w \<in> set (all_tokens e mlen paths)" by (simp only: keys_count_files)
  have c: "c = of_nat (count_list (all_tokens e mlen paths) w)"
    using count_of_entry [OF distinct_count_files assms(2)] by (simp only: count_of_count_files)
  have pos: "0 < count_list (all_tokens e mlen paths) w" using mem by (rule count_list_pos)
  from all_tokens_well_formed [OF assms(1) mem] c pos of_nat_64_nonzero [OF pos]
  show ?thesis by blast
qed

lemma words_well_formed_keys:
  "words_well_formed mlen m \<longleftrightarrow> (\<forall>w \<in> fst ` set m. well_formed_word mlen w)"
  by (simp add: words_well_formed_def list_all_iff)

lemma token_well_formed:
  assumes "1 \<le>s mlen" and "unat (to_size_t mlen) \<le> length t \<and> list_all lower_word_char t"
  shows "well_formed_word mlen t"
proof -
  have n: "unat (to_size_t mlen) = nat (sint mlen)" using assms(1) by (rule to_size_t_pos)
  have "0 < nat (sint mlen)" using assms(1) by (rule threads_positive)
  with assms(2) show ?thesis
    by (auto simp: well_formed_word_def n)
qed

lemma parse_chars_well_formed:
  assumes "1 \<le>s mlen" and "list_all lower_word_char cur" and "words_well_formed mlen m"
  shows "words_well_formed mlen (snd (parse_chars cs mlen cur m))"
proof -
  have "snd (parse_chars cs mlen cur m) = fold (\<lambda>t. add_count t 1) (emitted cs mlen cur) m"
    by (subst parse_chars_emitted) simp
  then have keys: "fst ` set (snd (parse_chars cs mlen cur m)) = fst ` set m \<union> set (emitted cs mlen cur)"
    by (simp only: keys_fold_add_count)
  show ?thesis
    unfolding words_well_formed_keys keys
    using assms(3) emitted_tokens [OF assms(2)] token_well_formed [OF assms(1)]
    by (auto simp: words_well_formed_keys)
qed

lemma parse_line_well_formed:
  assumes "1 \<le>s mlen" and "words_well_formed mlen m"
  shows "words_well_formed mlen (parse_line_and_count line mlen m)"
proof -
  have keys: "fst ` set (parse_line_and_count line mlen m) = fst ` set m \<union> set (line_tokens mlen line)"
    by (simp only: parse_line_line_tokens keys_fold_add_count)
  show ?thesis
    unfolding words_well_formed_keys keys
    using assms(2) line_tokens_shape token_well_formed [OF assms(1)]
    by (auto simp: words_well_formed_keys)
qed

lemma merge_entry_well_formed:
  assumes "length t = NUM_SHARDS" and "words_well_formed mlen (concat t)" and "well_formed_word mlen w"
  shows "words_well_formed mlen (concat (merge_entry e (w, c) t))"
proof -
  have "fst ` set (concat (fold (merge_entry e) [(w, c)] t)) = fst ` set (concat t) \<union> fst ` set [(w, c)]"
    using assms(1) by (rule table_keys)
  then have keys: "fst ` set (concat (merge_entry e (w, c) t)) = insert w (fst ` set (concat t))"
    by simp
  show ?thesis
    unfolding words_well_formed_keys keys
    using assms(2,3) by (simp add: words_well_formed_keys)
qed

lemma table_entry_well_formed:
  assumes "1 \<le>s mlen"
    and "mset (concat shares) = mset paths"
    and "mset steps = mset (concat (map (\<lambda>s. count_files e mlen s []) shares))"
    and "(w, c) \<in> set (concat (fold (merge_entry e) steps empty_table))"
  shows "well_formed_word mlen w \<and>
         c = of_nat (count_list (all_tokens e mlen paths) w) \<and>
         0 < count_list (all_tokens e mlen paths) w \<and>
         (count_list (all_tokens e mlen paths) w < 2 ^ 64 \<longrightarrow> 1 \<le> c)"
proof -
  have "set (concat (fold (merge_entry e) steps empty_table)) = set (count_files e mlen paths [])"
    using merged_entries [OF assms(2,3)] by (rule mset_eq_setD)
  with assms(4) have "(w, c) \<in> set (count_files e mlen paths [])" by (simp only:)
  with assms(1) show ?thesis by (rule tally_entry)
qed

lemma output_entry_well_formed:
  assumes "main e argv = Exited r" and "(w, c) \<in> set (stdout r)"
  shows "\<exists>config perr. parse_args e argv = Inr (Some config, perr) \<and>
           well_formed_word (min_len config) w \<and>
           c = of_nat (count_list (all_tokens e (min_len config) (fst (regular_files e (dir_path config)))) w) \<and>
           0 < count_list (all_tokens e (min_len config) (fst (regular_files e (dir_path config)))) w \<and>
           (count_list (all_tokens e (min_len config) (fst (regular_files e (dir_path config)))) w < 2 ^ 64
              \<longrightarrow> 1 \<le> c)"
proof (cases "parse_args e argv")
  case (Inl x)
  with assms show ?thesis by (simp add: main_def)
next
  case (Inr p)
  obtain cf perr where p: "p = (cf, perr)" by (cases p)
  show ?thesis
  proof (cases cf)
    case None
    with assms Inr p show ?thesis by (auto simp: main_def)
  next
    case (Some config)
    with Inr p have acc: "parse_args e argv = Inr (Some config, perr)" by simp
    have ml: "1 \<le>s min_len config" using parse_args_accepts [OF acc] by blast
    from main_accepted [OF acc] assms
    have "(w, c) \<in> set (rank_words (top_m config)
        (count_files e (min_len config) (fst (regular_files e (dir_path config))) []))"
      by auto
    then have "(w, c) \<in> set (count_files e (min_len config) (fst (regular_files e (dir_path config))) [])"
      using rank_words_subset by blast
    from tally_entry [OF ml this] acc show ?thesis by blast
  qed
qed

lemma fold_add_count_replicate:
  "fold (\<lambda>t. add_count t 1) (replicate k w) [(w, c)] = [(w, c + of_nat k)]"
  by (induction k arbitrary: c) (simp_all add: add.assoc add.commute)

lemma concat_replicate_singleton: "concat (replicate k [x]) = replicate k x"
  by (induction k) simp_all

lemma concat_replicate_replicate: "concat (replicate j (replicate k x)) = replicate (j * k) x"
  by (induction j) (simp_all add: replicate_add)

lemma overflow_tokens: "all_tokens overflow_env 1 overflow_paths = replicate (8 * 2 ^ 61) ''a''"
proof -
  have lt: "line_tokens 1 ''a'' = [''a'']" by code_simp
  have ft: "file_tokens overflow_env 1 p = replicate (2 ^ 61) ''a''" for p
    by (simp only: file_tokens_def overflow_env_def env.simps option.simps map_replicate lt
        concat_replicate_singleton)
  have "all_tokens overflow_env 1 overflow_paths =
      replicate (2 ^ 61 + (2 ^ 61 + (2 ^ 61 + (2 ^ 61 + (2 ^ 61 + (2 ^ 61 + (2 ^ 61 + 2 ^ 61))))))) ''a''"
    by (simp only: all_tokens_def overflow_paths_def ft list.map concat.simps append_Nil2 replicate_add)
  also have "(2 :: nat) ^ 61 + (2 ^ 61 + (2 ^ 61 + (2 ^ 61 + (2 ^ 61 + (2 ^ 61 + (2 ^ 61 + 2 ^ 61)))))) = 8 * 2 ^ 61"
    by simp
  finally show ?thesis .
qed

lemma fold_add_count_replicate_empty:
  assumes "0 < k"
  shows "fold (\<lambda>t. add_count t 1) (replicate k w) [] = [(w, of_nat k)]"
proof -
  from assms obtain j where k: "k = Suc j" by (cases k) auto
  have "fold (\<lambda>t. add_count t 1) (replicate (Suc j) w) [] =
        fold (\<lambda>t. add_count t 1) (replicate j w) [(w, 1)]"
    by simp
  also have "\<dots> = [(w, 1 + of_nat j)]"
    by (rule fold_add_count_replicate)
  finally show ?thesis by (simp add: k)
qed

lemma overflow_counts: "count_files overflow_env 1 overflow_paths [] = [(''a'', 0)]"
proof -
  have k: "(8 :: nat) * 2 ^ 61 = 2 ^ 64" by simp
  have "count_files overflow_env 1 overflow_paths [] = [(''a'', of_nat (2 ^ 64))]"
    unfolding count_files_tokens overflow_tokens k
    by (rule fold_add_count_replicate_empty) simp
  also have "(of_nat (2 ^ 64) :: 64 word) = 0"
    using of_nat_2p [where 'a = 64] by simp
  finally show ?thesis .
qed

text \<open>
  Claim C10 as stated, with a count of at least 1 in every entry, fails where a word is
  counted \<open>2 ^ 64\<close> times: the \<^verbatim>\<open>uint64_t\<close> count wraps to 0. In the environment
  \<open>overflow_env\<close> the private tally of the one worker ends as the single entry
  \<^verbatim>\<open>a:0\<close>, and the run writes \<^verbatim>\<open>a 0\<close>.
\<close>

theorem count_wraps_counterexample:
  "main overflow_env [''counter'', ''dir''] =
     Exited \<lparr>exit_code = 0, stdout = [(''a'', 0)], stderr = [], workers_started = 1\<rparr>
   \<and> consumer_loop overflow_env 1 \<lparr>q = overflow_paths, producer_done = True\<rparr> [] [] [] =
     Some (\<lparr>q = [], producer_done = True\<rparr>, [(''a'', 0)], [])
   \<and> \<not> (1 :: 64 word) \<le> snd (''a'', 0 :: 64 word)"
proof -
  have acc: "parse_args overflow_env [''counter'', ''dir''] =
      Inr (Some \<lparr>threads = 1, top_m = 10, min_len = 1, dir_path = ''dir''\<rparr>, [])"
    by (simp add: parse_args_def overflow_env_def word_sless_alt)
  have files: "regular_files overflow_env ''dir'' = (overflow_paths, False)"
    by (simp add: overflow_env_def)
  have rd: "readable overflow_env p" for p
    by (simp add: readable_def overflow_env_def)
  have quiet: "concat (map (open_failures overflow_env)
      (map (\<lambda>i. worker_share overflow_env (nat (sint (1 :: 32 word))) i overflow_paths)
         [0..<nat (sint (1 :: 32 word))])) = []"
    using rd by (rule shares_open_failures_none)
  have rk: "rank_words 10 [(''a'', 0)] = [(''a'', 0)]"
    by code_simp
  have a: "main overflow_env [''counter'', ''dir''] =
     Exited \<lparr>exit_code = 0, stdout = [(''a'', 0)], stderr = [], workers_started = 1\<rparr>"
    unfolding main_accepted [OF acc]
    using quiet by (simp add: files overflow_counts rk)
  have b: "consumer_loop overflow_env 1 \<lparr>q = overflow_paths, producer_done = True\<rparr> [] [] [] =
     Some (\<lparr>q = [], producer_done = True\<rparr>, [(''a'', 0)], [])"
    using consumer_loop_closed [of "\<lparr>q = overflow_paths, producer_done = True\<rparr>" overflow_paths
        overflow_env 1 "[]" "[]" "[]"]
    by (simp add: overflow_counts open_failures_none [OF rd])
  from a b show ?thesis by simp
qed

text \<open>
  Claim C10, as the code has it. Let the minimum length be at least 1 (what
  \<^verbatim>\<open>parse_args\<close> accepts). The words of the entries are well formed in every state of
  a private tally (the character loop, a whole line) and of the table (a merge step
  keeps it). Every entry of a worker's tally at the end of its loop, of the table after
  the merges of any partition in any order, and of the output of a run has a well-formed
  word, and its count is the number of times the word was counted, which is at least 1,
  taken modulo \<open>2 ^ 64\<close>: the count is at least 1 when that number is below \<open>2 ^ 64\<close>.
\<close>

theorem entries_well_formed:
  assumes "1 \<le>s mlen"
  shows "(list_all lower_word_char cur \<and> words_well_formed mlen m \<longrightarrow>
            words_well_formed mlen (snd (parse_chars cs mlen cur m)))
       \<and> (words_well_formed mlen m \<longrightarrow> words_well_formed mlen (parse_line_and_count line mlen m))
       \<and> (length t = NUM_SHARDS \<and> words_well_formed mlen (concat t) \<and> well_formed_word mlen w' \<longrightarrow>
            words_well_formed mlen (concat (merge_entry e (w', c') t)))
       \<and> ((w, c) \<in> set (count_files e mlen paths []) \<longrightarrow>
            well_formed_word mlen w \<and>
            c = of_nat (count_list (all_tokens e mlen paths) w) \<and>
            0 < count_list (all_tokens e mlen paths) w \<and>
            (count_list (all_tokens e mlen paths) w < 2 ^ 64 \<longrightarrow> 1 \<le> c))
       \<and> (mset (concat shares) = mset paths \<and>
          mset steps = mset (concat (map (\<lambda>s. count_files e mlen s []) shares)) \<and>
          (w, c) \<in> set (concat (fold (merge_entry e) steps empty_table)) \<longrightarrow>
            well_formed_word mlen w \<and>
            c = of_nat (count_list (all_tokens e mlen paths) w) \<and>
            0 < count_list (all_tokens e mlen paths) w \<and>
            (count_list (all_tokens e mlen paths) w < 2 ^ 64 \<longrightarrow> 1 \<le> c))
       \<and> (main e argv = Exited r \<and> (w, c) \<in> set (stdout r) \<longrightarrow>
            (\<exists>config perr. parse_args e argv = Inr (Some config, perr) \<and>
               well_formed_word (min_len config) w \<and>
               c = of_nat (count_list
                     (all_tokens e (min_len config) (fst (regular_files e (dir_path config)))) w) \<and>
               0 < count_list
                     (all_tokens e (min_len config) (fst (regular_files e (dir_path config)))) w \<and>
               (count_list
                  (all_tokens e (min_len config) (fst (regular_files e (dir_path config)))) w < 2 ^ 64
                  \<longrightarrow> 1 \<le> c)))"
proof -
  have a: "list_all lower_word_char cur \<and> words_well_formed mlen m \<longrightarrow>
            words_well_formed mlen (snd (parse_chars cs mlen cur m))"
    using parse_chars_well_formed [OF assms] by blast
  have b: "words_well_formed mlen m \<longrightarrow> words_well_formed mlen (parse_line_and_count line mlen m)"
    using parse_line_well_formed [OF assms] by blast
  have c: "length t = NUM_SHARDS \<and> words_well_formed mlen (concat t) \<and> well_formed_word mlen w' \<longrightarrow>
            words_well_formed mlen (concat (merge_entry e (w', c') t))"
    using merge_entry_well_formed by blast
  have d: "(w, c) \<in> set (count_files e mlen paths []) \<longrightarrow>
            well_formed_word mlen w \<and>
            c = of_nat (count_list (all_tokens e mlen paths) w) \<and>
            0 < count_list (all_tokens e mlen paths) w \<and>
            (count_list (all_tokens e mlen paths) w < 2 ^ 64 \<longrightarrow> 1 \<le> c)"
    using tally_entry [OF assms] by blast
  have e: "mset (concat shares) = mset paths \<and>
          mset steps = mset (concat (map (\<lambda>s. count_files e mlen s []) shares)) \<and>
          (w, c) \<in> set (concat (fold (merge_entry e) steps empty_table)) \<longrightarrow>
            well_formed_word mlen w \<and>
            c = of_nat (count_list (all_tokens e mlen paths) w) \<and>
            0 < count_list (all_tokens e mlen paths) w \<and>
            (count_list (all_tokens e mlen paths) w < 2 ^ 64 \<longrightarrow> 1 \<le> c)"
    using table_entry_well_formed [OF assms] by blast
  have f: "main e argv = Exited r \<and> (w, c) \<in> set (stdout r) \<longrightarrow>
            (\<exists>config perr. parse_args e argv = Inr (Some config, perr) \<and>
               well_formed_word (min_len config) w \<and>
               c = of_nat (count_list
                     (all_tokens e (min_len config) (fst (regular_files e (dir_path config)))) w) \<and>
               0 < count_list
                     (all_tokens e (min_len config) (fst (regular_files e (dir_path config)))) w \<and>
               (count_list
                  (all_tokens e (min_len config) (fst (regular_files e (dir_path config)))) w < 2 ^ 64
                  \<longrightarrow> 1 \<le> c))"
    using output_entry_well_formed by blast
  show ?thesis
    using a b c d e f by (intro conjI)
qed

theorem entries_well_formed_witness:
  "(1 :: 32 word) \<le>s 1
   \<and> (''foo'', 3) \<in> set (count_files (scenario_env length_hash id []) 1 [''dir/A'', ''dir/B''] [])
   \<and> well_formed_word 1 ''foo''
   \<and> (3 :: 64 word) = of_nat (count_list (all_tokens (scenario_env length_hash id []) 1 [''dir/A'', ''dir/B'']) ''foo'')
   \<and> count_list (all_tokens (scenario_env length_hash id []) 1 [''dir/A'', ''dir/B'']) ''foo'' = 3
   \<and> (1 :: 64 word) \<le> 3
   \<and> list_all lower_word_char ''ba'' \<and> words_well_formed 1 [(''foo'', 2)]
   \<and> snd (parse_chars ''R baz'' 1 ''ba'' [(''foo'', 2)]) = [(''foo'', 2), (''bar'', 1)]
   \<and> words_well_formed 1 (snd (parse_chars ''R baz'' 1 ''ba'' [(''foo'', 2)]))"
proof -
  let ?e = "scenario_env length_hash id []"
  have h: "(1 :: 32 word) \<le>s 1" by (simp add: word_sle_eq)
  have m: "(''foo'', 3) \<in> set (count_files ?e 1 [''dir/A'', ''dir/B''] [])"
    by code_simp
  have k: "count_list (all_tokens ?e 1 [''dir/A'', ''dir/B'']) ''foo'' = 3"
    by code_simp
  have p: "list_all lower_word_char ''ba'' \<and> words_well_formed 1 [(''foo'', 2)]"
    by code_simp
  have v: "snd (parse_chars ''R baz'' 1 ''ba'' [(''foo'', 2)]) = [(''foo'', 2), (''bar'', 1)]"
    by code_simp
  from h m k p v
    entries_well_formed [OF h, where cur = "''ba''" and m = "[(''foo'', 2)]" and cs = "''R baz''"
      and e = ?e and w = "''foo''" and c = 3 and paths = "[''dir/A'', ''dir/B'']"]
  show ?thesis by simp
qed

end
